theory Spec2Isabelle
  imports Main
begin

section \<open>Strings as the bootstrap script sees them\<close>

text \<open>
  The script \<^verbatim>\<open>scripts/bootstrap.ts\<close> personalises the template: it rewrites
  package.json, README.md, .env, .cursor/worktrees.json and .github/workflows/deploy.yml
  from a name, a description and a package manager. The model follows the current
  version of the script, the one whose functions are \<^verbatim>\<open>updateEnvVarInPlace\<close>,
  \<^verbatim>\<open>appendResourcesSection\<close> and \<^verbatim>\<open>confirmChanges\<close>.

  The script works on JavaScript strings, which are sequences of UTF-16 code units. Here
  a string is a \<^typ>\<open>char list\<close> and a \<^typ>\<open>char\<close> stands for a code unit below 256, so
  the documents covered are those written in the Latin-1 range. The string methods the
  script calls are written out below with the meaning ECMAScript gives them on that
  range.
\<close>

text \<open>
  White space as \<^verbatim>\<open>String.prototype.trim\<close> and the regular expression class
  \<^verbatim>\<open>\s\<close> understand it: TAB, LF, VT, FF, CR, SPACE and NBSP.
\<close>

definition isWhiteSpace :: "char \<Rightarrow> bool" where
  "isWhiteSpace c \<longleftrightarrow>
     c = CHR 0x09 \<or> c = CHR 0x0A \<or> c = CHR 0x0B \<or> c = CHR 0x0C \<or>
     c = CHR 0x0D \<or> c = CHR 0x20 \<or> c = CHR 0xA0"

text \<open>The characters that the regular expression atom \<^verbatim>\<open>.\<close> refuses: LF and CR.\<close>

definition isLineTerminator :: "char \<Rightarrow> bool" where
  "isLineTerminator c \<longleftrightarrow> c = CHR 0x0A \<or> c = CHR 0x0D"

definition js_trim :: "string \<Rightarrow> string" where
  "js_trim s = rev (dropWhile isWhiteSpace (rev (dropWhile isWhiteSpace s)))"

definition startsWith :: "string \<Rightarrow> string \<Rightarrow> bool" where
  "startsWith s p \<longleftrightarrow> take (length p) s = p"

definition endsWith :: "string \<Rightarrow> string \<Rightarrow> bool" where
  "endsWith s p \<longleftrightarrow> startsWith (rev s) (rev p)"

text \<open>\<^verbatim>\<open>s.includes(p)\<close>: \<open>p\<close> occurs in \<open>s\<close> at some offset.\<close>

fun js_includes :: "string \<Rightarrow> string \<Rightarrow> bool" where
  "js_includes [] p = (p = [])"
| "js_includes (c # cs) p = (startsWith (c # cs) p \<or> js_includes cs p)"

text \<open>
  \<^verbatim>\<open>s.split(d)\<close> for a one-character separator. The result is never empty:
  the empty string splits into one empty piece.
\<close>

primrec js_split :: "char \<Rightarrow> string \<Rightarrow> string list" where
  "js_split d [] = [[]]"
| "js_split d (c # cs) =
     (if c = d then [] # js_split d cs
      else (c # hd (js_split d cs)) # tl (js_split d cs))"

text \<open>
  The same split, scanning from the left with the current piece in hand. It is equal to
  \<open>js_split\<close> (lemma \<open>js_split_run\<close>) and is the form used to run a split on a
  concrete string.
\<close>

fun splitFrom :: "char \<Rightarrow> string \<Rightarrow> string \<Rightarrow> string list" where
  "splitFrom d cur [] = [cur]"
| "splitFrom d cur (c # cs) =
     (if c = d then cur # splitFrom d [] cs else splitFrom d (cur @ [c]) cs)"

text \<open>\<^verbatim>\<open>parts.join(sep)\<close>.\<close>

fun js_join :: "string \<Rightarrow> string list \<Rightarrow> string" where
  "js_join sep [] = []"
| "js_join sep [x] = x"
| "js_join sep (x # y # ys) = x @ sep @ js_join sep (y # ys)"

text \<open>
  \<^verbatim>\<open>toLowerCase\<close> on the Latin-1 range: the letters A to Z and the accented
  capitals 0xC0 to 0xDE (the multiplication sign 0xD7 apart) move up by 32.
\<close>

definition lowerChar :: "char \<Rightarrow> char" where
  "lowerChar c =
     (let n = (of_char c :: nat) in
      if (65 \<le> n \<and> n \<le> 90) \<or> (192 \<le> n \<and> n \<le> 222 \<and> n \<noteq> 215)
      then char_of (n + 32) else c)"

definition toLowerCase :: "string \<Rightarrow> string" where
  "toLowerCase s = map lowerChar s"

abbreviation NL :: string where
  "NL \<equiv> [CHR 0x0A]"


section \<open>Types and constants\<close>

datatype PackageManager = Npm | Yarn | Pnpm

definition ENV_TITLE :: string where
  "ENV_TITLE = ''VITE_TITLE''"

definition ENV_DESCRIPTION :: string where
  "ENV_DESCRIPTION = ''VITE_DESCRIPTION''"


section \<open>The .env file\<close>

text \<open>
  The file \<^verbatim>\<open>.env\<close> is \<open>None\<close> when it does not exist and \<open>Some content\<close>
  otherwise; a file that exists is taken to be readable and writable. The environment
  object \<^verbatim>\<open>Record<string, string>\<close> is a map from keys to values.
\<close>

type_synonym env = "string \<rightharpoonup> string"

definition parseEnvLine :: "string \<Rightarrow> (string \<times> string) option" where
  "parseEnvLine line =
     (let trimmed = js_trim line in
      if trimmed = [] \<or> startsWith trimmed ''#'' then None
      else
        let parts = js_split (CHR ''='') trimmed;
            key = hd parts;
            valueParts = tl parts
        in if key = [] then None
           else Some (js_trim key, js_trim (js_join ''='' valueParts)))"

definition readEnvFile :: "string option \<Rightarrow> env" where
  "readEnvFile file =
     (case file of
        None \<Rightarrow> Map.empty
      | Some content \<Rightarrow>
          fold (\<lambda>line env. case parseEnvLine line of
                              None \<Rightarrow> env
                            | Some (k, v) \<Rightarrow> env(k \<mapsto> v))
               (js_split (CHR 0x0A) content) Map.empty)"

definition isEnvVarLine :: "string \<Rightarrow> string \<Rightarrow> bool" where
  "isEnvVarLine line key \<longleftrightarrow> startsWith (js_trim line) (key @ ''='')"

text \<open>The line \<^verbatim>\<open>`${key}=${value || ""}`\<close> that both writers of the file build.\<close>

definition envLine :: "string \<Rightarrow> string \<Rightarrow> string" where
  "envLine key val = key @ ''='' @ val"

text \<open>
  \<^verbatim>\<open>updateEnvVarInPlace\<close> scans the lines from the front, overwrites the first
  line that assigns \<open>key\<close> and stops. The array is mutated in place in the source;
  here the updated array is returned beside the flag.
\<close>

fun updateEnvVarInPlace :: "string list \<Rightarrow> string \<Rightarrow> string \<Rightarrow> bool \<times> string list" where
  "updateEnvVarInPlace [] key val = (False, [])"
| "updateEnvVarInPlace (l # ls) key val =
     (if isEnvVarLine l key then (True, envLine key val # ls)
      else (let (found, ls') = updateEnvVarInPlace ls key val in (found, l # ls')))"

function removeTrailingEmptyLines :: "string list \<Rightarrow> string list" where
  "removeTrailingEmptyLines lines =
     (if lines \<noteq> [] \<and> js_trim (last lines) = []
      then removeTrailingEmptyLines (butlast lines) else lines)"
  by pat_completeness auto
termination
  by (relation "measure length") auto

declare removeTrailingEmptyLines.simps [simp del]

definition addMissingEnvVars :: "string list \<Rightarrow> (string \<times> string) list \<Rightarrow> string list" where
  "addMissingEnvVars lines varsToAdd =
     (if varsToAdd = [] then lines
      else
        let lines1 = removeTrailingEmptyLines lines;
            lines2 = (if lines1 \<noteq> [] then lines1 @ [[]] else lines1)
        in lines2 @ map (\<lambda>(key, val). envLine key val) varsToAdd)"

definition envValue :: "env \<Rightarrow> string \<Rightarrow> string" where
  "envValue env key = (case env key of None \<Rightarrow> [] | Some v \<Rightarrow> v)"

text \<open>
  The array of lines that \<^verbatim>\<open>writeEnvFile\<close> holds just before it joins them,
  and the content it passes to \<^verbatim>\<open>writeFileSync\<close>.
\<close>

definition fileContent :: "string option \<Rightarrow> string" where
  "fileContent file = (case file of None \<Rightarrow> [] | Some c \<Rightarrow> c)"

definition writeEnvLines :: "env \<Rightarrow> string option \<Rightarrow> string list" where
  "writeEnvLines env file =
     (let originalContent = fileContent file;
          lines = js_split (CHR 0x0A) originalContent;
          titleValue = envValue env ENV_TITLE;
          (foundTitle, lines1) = updateEnvVarInPlace lines ENV_TITLE titleValue;
          varsToAdd1 = (if foundTitle then [] else [(ENV_TITLE, titleValue)]);
          descValue = envValue env ENV_DESCRIPTION;
          (foundDesc, lines2) = updateEnvVarInPlace lines1 ENV_DESCRIPTION descValue;
          varsToAdd2 = (if foundDesc then varsToAdd1
                        else varsToAdd1 @ [(ENV_DESCRIPTION, descValue)])
      in addMissingEnvVars lines2 varsToAdd2)"

definition writeEnvFile :: "env \<Rightarrow> string option \<Rightarrow> string" where
  "writeEnvFile env file =
     (let content = js_join NL (writeEnvLines env file)
      in content @ (if content \<noteq> [] \<and> \<not> endsWith content NL then NL else []))"

text \<open>
  The .env step of \<^verbatim>\<open>applyBootstrapChanges\<close>: read the file into a map, set
  the two keys, write the file. The result is the new content of the file.
\<close>

definition updateEnv :: "string \<Rightarrow> string \<Rightarrow> string option \<Rightarrow> string" where
  "updateEnv name description file =
     (let env = readEnvFile file;
          env1 = env(ENV_TITLE \<mapsto> name);
          env2 = env1(ENV_DESCRIPTION \<mapsto> description)
      in writeEnvFile env2 file)"



subsection \<open>Vocabulary for the properties of the .env step\<close>

text \<open>Some line of the file assigns \<open>key\<close>, in the sense of \<^verbatim>\<open>isEnvVarLine\<close>.\<close>

definition hasEnvVar :: "string list \<Rightarrow> string \<Rightarrow> bool" where
  "hasEnvVar lines key = list_ex (\<lambda>l. isEnvVarLine l key) lines"

text \<open>The index of the first line that assigns \<open>key\<close>; the number of lines when none does.\<close>

definition firstEnvVar :: "string list \<Rightarrow> string \<Rightarrow> nat" where
  "firstEnvVar lines key = length (takeWhile (\<lambda>l. \<not> isEnvVarLine l key) lines)"

text \<open>
  How many of the original lines survive: all of them when both keys are assigned in the
  file, and otherwise those up to the last line that is not blank.
\<close>

definition keptLength :: "string list \<Rightarrow> nat" where
  "keptLength lines =
     (if hasEnvVar lines ENV_TITLE \<and> hasEnvVar lines ENV_DESCRIPTION then length lines
      else length (removeTrailingEmptyLines lines))"

text \<open>The lines appended for the keys that the file does not assign.\<close>

definition addedLines :: "env \<Rightarrow> string list \<Rightarrow> string list" where
  "addedLines env lines =
     (if hasEnvVar lines ENV_TITLE then [] else [envLine ENV_TITLE (envValue env ENV_TITLE)]) @
     (if hasEnvVar lines ENV_DESCRIPTION then []
      else [envLine ENV_DESCRIPTION (envValue env ENV_DESCRIPTION)])"

abbreviation NLNL :: string where
  "NLNL \<equiv> [CHR 0x0A, CHR 0x0A]"



section \<open>README.md\<close>

definition RESOURCES_SECTION :: string where
  "RESOURCES_SECTION =
     ''## Resources\<newline>\<newline>This project is based on the [topheman/vite-react-ts-template](https://github.com/topheman/vite-react-ts-template) template.\<newline>''"

text \<open>
  \<^verbatim>\<open>lines[0]\<close> always exists, because a split is never empty, so the assignment to
  \<^verbatim>\<open>lines[0]\<close> is a list update at index 0.
\<close>

definition updateReadmeTitle :: "string \<Rightarrow> string \<Rightarrow> string" where
  "updateReadmeTitle content name =
     (let lines = js_split (CHR 0x0A) content;
          lines1 = (if startsWith (lines ! 0) ''#''
                    then lines[0 := ''# '' @ name]
                    else lines[0 := ''# '' @ name @ NL @ lines ! 0])
      in js_join NL lines1)"

definition appendResourcesSection :: "string \<Rightarrow> string" where
  "appendResourcesSection content =
     (if js_includes content ''## Resources'' then content
      else
        let separator = (if endsWith content NL then NL else NL @ NL)
        in content @ separator @ RESOURCES_SECTION)"

text \<open>
  What \<^verbatim>\<open>updateReadme\<close> writes back, as a function of the name and of the content it
  has read.
\<close>

definition updateReadme :: "string \<Rightarrow> string \<Rightarrow> string" where
  "updateReadme name content = appendResourcesSection (updateReadmeTitle content name)"



section \<open>Argument parsing\<close>

text \<open>
  \<^verbatim>\<open>Partial<BootstrapOptions>\<close>: every field may be absent. \<^verbatim>\<open>BootstrapOptions\<close>:
  every field is present.
\<close>

record CliArgs =
  cliName :: "string option"
  cliDescription :: "string option"
  cliPackageManager :: "PackageManager option"
  cliInteractive :: "bool option"

record BootstrapOptions =
  optName :: string
  optDescription :: string
  optPackageManager :: PackageManager
  optInteractive :: bool

definition PACKAGE_MANAGERS :: "string list" where
  "PACKAGE_MANAGERS = [''npm'', ''yarn'', ''pnpm'']"

definition DEFAULTS :: BootstrapOptions where
  "DEFAULTS = \<lparr>optName = ''topheman/vite-react-ts-template'',
               optDescription = ''A starter template for frontend projects.'',
               optPackageManager = Npm,
               optInteractive = True\<rparr>"

text \<open>
  \<^verbatim>\<open>process.exit(code)\<close> after a \<^verbatim>\<open>console.error(message)\<close>: the run stops there.
\<close>

datatype failure = ProcessExit int string

record FlagParseResult =
  flagValue :: string
  nextIndex :: int

text \<open>\<^verbatim>\<open>args[i]\<close>, which is \<^verbatim>\<open>undefined\<close> past the end of the array.\<close>

definition argAt :: "string list \<Rightarrow> nat \<Rightarrow> string option" where
  "argAt args i = (if i < length args then Some (args ! i) else None)"

text \<open>A string or \<^verbatim>\<open>undefined\<close> used as a condition: true for a string that is not empty.\<close>

definition truthy :: "string option \<Rightarrow> bool" where
  "truthy v = (case v of None \<Rightarrow> False | Some s \<Rightarrow> s \<noteq> [])"

text \<open>The \<^verbatim>\<open>while\<close> loop of \<^verbatim>\<open>collectFlagValue\<close>: the index and the parts collected.\<close>

function collectLoop :: "string list \<Rightarrow> nat \<Rightarrow> string list \<Rightarrow> nat \<times> string list" where
  "collectLoop args i parts =
     (if i < length args \<and> \<not> startsWith (args ! i) ''--''
      then collectLoop args (Suc i) (parts @ [args ! i])
      else (i, parts))"
  by pat_completeness auto
termination
  by (relation "measure (\<lambda>(args, i, parts). length args - i)") auto

declare collectLoop.simps [simp del]

definition collectFlagValue :: "string list \<Rightarrow> nat \<Rightarrow> FlagParseResult" where
  "collectFlagValue args startIndex =
     (let (i, parts) = collectLoop args startIndex []
      in \<lparr>flagValue = js_join '' '' parts, nextIndex = int i - 1\<rparr>)"

definition invalidPackageManagerMessage :: "string \<Rightarrow> string" where
  "invalidPackageManagerMessage pm =
     ''Invalid package manager: '' @ pm @ ''. Must be one of: '' @ js_join '', '' PACKAGE_MANAGERS"

text \<open>
  The type \<^verbatim>\<open>PackageManager\<close> is a union of three string literals in the source; here
  it is a datatype, and \<open>packageManagerOf\<close> is the cast of a string that is one of the
  three.
\<close>

definition packageManagerOf :: "string \<Rightarrow> PackageManager" where
  "packageManagerOf pm = (if pm = ''npm'' then Npm else if pm = ''yarn'' then Yarn else Pnpm)"

definition validatePackageManager :: "string \<Rightarrow> failure + PackageManager" where
  "validatePackageManager pm =
     (if pm \<in> set PACKAGE_MANAGERS then Inr (packageManagerOf pm)
      else Inl (ProcessExit 1 (invalidPackageManagerMessage pm)))"

text \<open>
  The \<^verbatim>\<open>for\<close> loop of \<^verbatim>\<open>parseArgs\<close>, from index \<open>i\<close> with the options collected so
  far. Each branch leaves the index where the body of the loop leaves it, and the
  recursive call adds the increment of the loop.
\<close>

function parseLoop :: "string list \<Rightarrow> nat \<Rightarrow> CliArgs \<Rightarrow> failure + CliArgs" where
  "parseLoop args i options =
     (if \<not> i < length args then Inr options
      else if args ! i = ''--name'' then
        parseLoop args (nat (nextIndex (collectFlagValue args (Suc i)) + 1))
          (if flagValue (collectFlagValue args (Suc i)) \<noteq> []
           then options\<lparr>cliName := Some (flagValue (collectFlagValue args (Suc i)))\<rparr>
           else options)
      else if args ! i = ''--description'' then
        parseLoop args (nat (nextIndex (collectFlagValue args (Suc i)) + 1))
          (if flagValue (collectFlagValue args (Suc i)) \<noteq> []
           then options\<lparr>cliDescription := Some (flagValue (collectFlagValue args (Suc i)))\<rparr>
           else options)
      else if args ! i = ''--packageManager'' \<and> truthy (argAt args (Suc i)) then
        (case validatePackageManager (args ! (Suc i)) of
           Inl stop \<Rightarrow> Inl stop
         | Inr pm \<Rightarrow> parseLoop args (Suc (Suc i)) (options\<lparr>cliPackageManager := Some pm\<rparr>))
      else if args ! i = ''--interactive'' then
        (if argAt args (Suc i) = Some ''false'' \<or> argAt args (Suc i) = Some ''0''
         then parseLoop args (Suc (Suc i)) (options\<lparr>cliInteractive := Some False\<rparr>)
         else parseLoop args (Suc i) (options\<lparr>cliInteractive := Some True\<rparr>))
      else if args ! i = ''--no-interactive'' then
        parseLoop args (Suc i) (options\<lparr>cliInteractive := Some False\<rparr>)
      else parseLoop args (Suc i) options)"
  by pat_completeness auto
termination
proof (relation "measure (\<lambda>(args, i, options). length args - i)")
  have grow: "j \<le> fst (collectLoop args j parts)" for args j parts
  proof (induction args j parts rule: collectLoop.induct)
    case (1 args i parts)
    show ?case
    proof (cases "i < length args \<and> \<not> startsWith (args ! i) ''--''")
      case True
      with 1 show ?thesis by (subst collectLoop.simps) auto
    next
      case False
      then show ?thesis by (subst collectLoop.simps) auto
    qed
  qed
  have next_index: "i < nat (nextIndex (collectFlagValue args (Suc i)) + 1)" for args i
    using grow [of "Suc i" args "[]"]
    by (auto simp: collectFlagValue_def split: prod.splits)
  show "wf (measure (\<lambda>(args, i, options). length args - i))" by simp
  show "((args, nat (nextIndex (collectFlagValue args (Suc i)) + 1),
          if flagValue (collectFlagValue args (Suc i)) \<noteq> []
          then options\<lparr>cliName := Some (flagValue (collectFlagValue args (Suc i)))\<rparr>
          else options), args, i, options)
        \<in> measure (\<lambda>(args, i, options). length args - i)"
    if "\<not> \<not> i < length args" for args i options
    using that next_index [of i args] by simp
  show "((args, nat (nextIndex (collectFlagValue args (Suc i)) + 1),
          if flagValue (collectFlagValue args (Suc i)) \<noteq> []
          then options\<lparr>cliDescription := Some (flagValue (collectFlagValue args (Suc i)))\<rparr>
          else options), args, i, options)
        \<in> measure (\<lambda>(args, i, options). length args - i)"
    if "\<not> \<not> i < length args" for args i options
    using that next_index [of i args] by simp
qed auto

declare parseLoop.simps [simp del]

definition noCliArgs :: CliArgs where
  "noCliArgs = \<lparr>cliName = None, cliDescription = None,
                cliPackageManager = None, cliInteractive = None\<rparr>"

text \<open>\<^verbatim>\<open>parseArgs\<close>, given \<^verbatim>\<open>process.argv.slice(2)\<close>.\<close>

definition parseArgs :: "string list \<Rightarrow> failure + CliArgs" where
  "parseArgs args = parseLoop args 0 noCliArgs"



section \<open>Install commands, worktrees.json and deploy.yml\<close>

definition getWorktreeInstallCommand :: "PackageManager \<Rightarrow> string" where
  "getWorktreeInstallCommand packageManager =
     (case packageManager of
        Npm \<Rightarrow> ''npm install''
      | Pnpm \<Rightarrow> ''pnpm install''
      | Yarn \<Rightarrow> ''yarn'')"

definition getGithubActionsInstallCommand :: "PackageManager \<Rightarrow> string" where
  "getGithubActionsInstallCommand packageManager =
     (case packageManager of
        Npm \<Rightarrow> ''npm ci''
      | Pnpm \<Rightarrow> ''pnpm install''
      | Yarn \<Rightarrow> ''yarn install --frozen-lockfile'')"

text \<open>
  What \<^verbatim>\<open>updateWorktreesJson\<close> writes:
  \<^verbatim>\<open>JSON.stringify({"setup-worktree": [command]}, null, 2) + "\n"\<close>. None of the three
  commands holds a character that JSON escapes.
\<close>

definition worktreesJson :: "PackageManager \<Rightarrow> string" where
  "worktreesJson packageManager =
     ''{'' @ NL @ ''  \"setup-worktree\": ['' @ NL @
     ''    \"'' @ getWorktreeInstallCommand packageManager @ ''\"'' @ NL @
     ''  ]'' @ NL @ ''}'' @ NL"

definition stripPrefix :: "string \<Rightarrow> string \<Rightarrow> string option" where
  "stripPrefix p s = (if startsWith s p then Some (drop (length p) s) else None)"

definition STEP_NAME :: string where
  "STEP_NAME = ''- name: Install dependencies''"

definition RUN_KEY :: string where
  "RUN_KEY = ''run: ''"

text \<open>
  The regular expression \<^verbatim>\<open>/(\s+- name: Install dependencies\s+run: )(.+)/\<close> tried at
  the start of \<open>s\<close>. The result holds group 1, group 2 and the text after the match.
  Each \<^verbatim>\<open>\s+\<close> is followed by a character that is not white space, so the only
  length it can take is the whole run of white space, which must not be empty;
  \<^verbatim>\<open>.+\<close> is greedy and nothing follows it, so it takes the whole run of characters
  that are not line terminators, which must not be empty.
\<close>

definition installPatternAt :: "string \<Rightarrow> (string \<times> string \<times> string) option" where
  "installPatternAt s =
     (let ws1 = takeWhile isWhiteSpace s; r1 = dropWhile isWhiteSpace s in
      if ws1 = [] then None
      else case stripPrefix STEP_NAME r1 of
        None \<Rightarrow> None
      | Some r2 \<Rightarrow>
          let ws2 = takeWhile isWhiteSpace r2; r3 = dropWhile isWhiteSpace r2 in
          if ws2 = [] then None
          else case stripPrefix RUN_KEY r3 of
            None \<Rightarrow> None
          | Some r4 \<Rightarrow>
              let g2 = takeWhile (\<lambda>c. \<not> isLineTerminator c) r4;
                  rest = dropWhile (\<lambda>c. \<not> isLineTerminator c) r4
              in if g2 = [] then None
                 else Some (ws1 @ STEP_NAME @ ws2 @ RUN_KEY, g2, rest))"

text \<open>
  The leftmost match of that expression in \<open>s\<close>: the text before the match, group 1,
  group 2 and the text after the match.
\<close>

fun installPatternSearch :: "string \<Rightarrow> (string \<times> string \<times> string \<times> string) option" where
  "installPatternSearch [] = None"
| "installPatternSearch (c # cs) =
     (case installPatternAt (c # cs) of
        Some (g1, g2, rest) \<Rightarrow> Some ([], g1, g2, rest)
      | None \<Rightarrow>
          (case installPatternSearch cs of
             None \<Rightarrow> None
           | Some (leading, g1, g2, rest) \<Rightarrow> Some (c # leading, g1, g2, rest)))"

text \<open>
  \<^verbatim>\<open>line.replace(/run: .+/, `run: ${installCommand}`)\<close>: the leftmost place where
  "run: " is followed by a character that is not a line terminator; the replacement runs
  to the next line terminator or to the end.
\<close>

definition runPatternAt :: "string \<Rightarrow> string option" where
  "runPatternAt s =
     (case stripPrefix RUN_KEY s of
        None \<Rightarrow> None
      | Some r \<Rightarrow>
          if takeWhile (\<lambda>c. \<not> isLineTerminator c) r = [] then None
          else Some (dropWhile (\<lambda>c. \<not> isLineTerminator c) r))"

fun replaceRun :: "string \<Rightarrow> string \<Rightarrow> string" where
  "replaceRun installCommand [] = []"
| "replaceRun installCommand (c # cs) =
     (case runPatternAt (c # cs) of
        Some rest \<Rightarrow> RUN_KEY @ installCommand @ rest
      | None \<Rightarrow> c # replaceRun installCommand cs)"

text \<open>
  The fallback loop over the lines: the first line that holds the step name and is
  followed by a line that holds "run:" has that next line rewritten, and the loop stops.
\<close>

fun fallbackLoop :: "string \<Rightarrow> string list \<Rightarrow> string list" where
  "fallbackLoop installCommand (l # m # ls) =
     (if js_includes l ''Install dependencies'' \<and> js_includes m ''run:''
      then l # replaceRun installCommand m # ls
      else l # fallbackLoop installCommand (m # ls))"
| "fallbackLoop installCommand ls = ls"

text \<open>
  What \<^verbatim>\<open>updateDeployYml\<close> writes back, as a function of the package manager and of
  the content it has read. In the replacement \<^verbatim>\<open>`$1${installCommand}`\<close> the command
  holds no dollar sign, so the match is replaced by group 1 followed by the command.
\<close>

definition updateDeployYml :: "PackageManager \<Rightarrow> string \<Rightarrow> string" where
  "updateDeployYml packageManager content =
     (let installCommand = getGithubActionsInstallCommand packageManager in
      case installPatternSearch content of
        Some (leading, g1, g2, rest) \<Rightarrow> leading @ g1 @ installCommand @ rest
      | None \<Rightarrow> js_join NL (fallbackLoop installCommand (js_split (CHR 0x0A) content)))"



subsection \<open>Vocabulary for the properties of the deploy.yml step\<close>

text \<open>
  The text starts with the step name, followed by white space, by "run: " and by one more
  character of the same line: what the regular expression asks for behind its leading
  white space.
\<close>

definition stepTextAt :: "string \<Rightarrow> bool" where
  "stepTextAt s \<longleftrightarrow>
     (let r2 = drop (length STEP_NAME) s;
          r3 = dropWhile isWhiteSpace r2;
          r4 = drop (length RUN_KEY) r3
      in startsWith s STEP_NAME \<and> takeWhile isWhiteSpace r2 \<noteq> [] \<and>
         startsWith r3 RUN_KEY \<and> r4 \<noteq> [] \<and> \<not> isLineTerminator (hd r4))"

text \<open>
  The regular expression matches in \<open>s\<close> with its step name at offset \<open>q\<close>: a white-space
  character stands just before that offset and the step text starts at it.
\<close>

definition patternAt :: "string \<Rightarrow> nat \<Rightarrow> bool" where
  "patternAt s q \<longleftrightarrow>
     0 < q \<and> q < length s \<and> isWhiteSpace (s ! (q - 1)) \<and> stepTextAt (drop q s)"

text \<open>
  Line \<open>i\<close> holds "Install dependencies" and the line after it holds "run:": the pair of
  lines that the fallback loop looks for.
\<close>

definition linePairAt :: "string list \<Rightarrow> nat \<Rightarrow> bool" where
  "linePairAt lines i \<longleftrightarrow>
     Suc i < length lines \<and> js_includes (lines ! i) ''Install dependencies'' \<and>
     js_includes (lines ! Suc i) ''run:''"

section \<open>The run: resolving the options, confirming, applying\<close>

text \<open>
  What the script finds outside itself. \<open>npmName\<close> and \<open>npmDescription\<close> are the
  outputs of \<^verbatim>\<open>npm pkg get name\<close> and \<^verbatim>\<open>npm pkg get description\<close>, \<open>None\<close> when the
  command fails; \<open>npmSetOk\<close> tells whether \<^verbatim>\<open>npm pkg set\<close> succeeds, and
  \<open>manifestSet\<close> holds the name and description last set through it. Each of the four
  files is \<open>None\<close> when it does not exist. The directories \<^verbatim>\<open>.cursor\<close> and
  \<^verbatim>\<open>.github/workflows\<close> are taken to exist.
\<close>

record World =
  npmName :: "string option"
  npmDescription :: "string option"
  npmSetOk :: bool
  manifestSet :: "(string \<times> string) option"
  readmeFile :: "string option"
  envFile :: "string option"
  worktreesFile :: "string option"
  deployFile :: "string option"

datatype target = PackageJson | ReadmeMd | DotEnv | WorktreesJson | DeployYml

datatype prompt = AskName | AskDescription | AskPackageManager | AskConfirm

text \<open>
  What a run does that can be seen from outside, in order. The lines of progress
  (\<^verbatim>\<open>Applying changes...\<close>, \<^verbatim>\<open>Updating README.md...\<close>) are not recorded, nor is
  the line that \<^verbatim>\<open>getCurrentPackageJsonValues\<close> logs when npm fails.
\<close>

datatype event =
    ReportInvalidPackageManager string
  | ReadPackageJson
  | Question prompt
  | WarnInvalidPackageManager string
  | Summary
  | Cancelled
  | Patched target
  | Complete
  | ReportError
  | CloseInput

record Run =
  exitCode :: int
  world :: World
  events :: "event list"

text \<open>
  \<^verbatim>\<open>output.trim().replace(/^"|"$/g, "")\<close>: a double quote at the start is removed, and
  then a double quote at the end of what is left.
\<close>

definition extractNpmPkgValue :: "string \<Rightarrow> string" where
  "extractNpmPkgValue output =
     (let t = js_trim output;
          t1 = (if startsWith t [CHR 0x22] then tl t else t);
          t2 = (if endsWith t1 [CHR 0x22] then butlast t1 else t1)
      in t2)"

definition getCurrentPackageJsonValues :: "World \<Rightarrow> string \<times> string" where
  "getCurrentPackageJsonValues w =
     (case npmName w of
        None \<Rightarrow> (optName DEFAULTS, optDescription DEFAULTS)
      | Some n \<Rightarrow>
          (case npmDescription w of
             None \<Rightarrow> (optName DEFAULTS, optDescription DEFAULTS)
           | Some d \<Rightarrow> (extractNpmPkgValue n, extractNpmPkgValue d)))"

text \<open>\<^verbatim>\<open>a || b\<close> on strings, an absent value counting as the empty string.\<close>

definition orElse :: "string \<Rightarrow> string \<Rightarrow> string" where
  "orElse a b = (if a \<noteq> [] then a else b)"

definition mergeOptions :: "CliArgs \<Rightarrow> string \<times> string \<Rightarrow> BootstrapOptions" where
  "mergeOptions cliArgs packageJsonValues =
     \<lparr>optName =
        orElse (orElse (case cliName cliArgs of None \<Rightarrow> [] | Some n \<Rightarrow> n) (fst packageJsonValues))
          (optName DEFAULTS),
      optDescription =
        orElse (orElse (case cliDescription cliArgs of None \<Rightarrow> [] | Some d \<Rightarrow> d)
                  (snd packageJsonValues))
          (optDescription DEFAULTS),
      optPackageManager =
        (case cliPackageManager cliArgs of None \<Rightarrow> optPackageManager DEFAULTS | Some pm \<Rightarrow> pm),
      optInteractive =
        (case cliInteractive cliArgs of None \<Rightarrow> optInteractive DEFAULTS | Some b \<Rightarrow> b)\<rparr>"

text \<open>
  \<open>argv\<close> is \<^verbatim>\<open>process.argv.slice(2)\<close>. The source searches the whole of
  \<^verbatim>\<open>process.argv\<close>, whose first two entries are the paths of the interpreter and of
  the script, neither of which is one of the two flags.
\<close>

definition shouldSkipInteractive :: "CliArgs \<Rightarrow> string list \<Rightarrow> bool" where
  "shouldSkipInteractive cliArgs argv \<longleftrightarrow>
     cliInteractive cliArgs = Some False \<or>
     ''--no-interactive'' \<in> set argv \<or>
     ''--interactive=false'' \<in> set argv"

text \<open>
  The three questions of \<^verbatim>\<open>promptForUserInput\<close>. The answers are the lines waiting on
  the standard input; the result is \<open>None\<close> when a question finds no line, in which case
  the run goes no further. Otherwise it holds the options, the lines left and the events.
\<close>

definition promptForUserInput ::
  "string list \<Rightarrow> BootstrapOptions \<Rightarrow> (BootstrapOptions \<times> string list \<times> event list) option" where
  "promptForUserInput stdin options =
     (case stdin of
        [] \<Rightarrow> None
      | nameAnswer # stdin1 \<Rightarrow>
          let options1 = (if js_trim nameAnswer \<noteq> []
                          then options\<lparr>optName := js_trim nameAnswer\<rparr> else options)
          in case stdin1 of
               [] \<Rightarrow> None
             | descAnswer # stdin2 \<Rightarrow>
                 let options2 = (if js_trim descAnswer \<noteq> []
                                 then options1\<lparr>optDescription := js_trim descAnswer\<rparr>
                                 else options1)
                 in case stdin2 of
                      [] \<Rightarrow> None
                    | pmAnswer # stdin3 \<Rightarrow>
                        let trimmedPm = js_trim pmAnswer;
                            asked = [Question AskName, Question AskDescription,
                                     Question AskPackageManager]
                        in if trimmedPm \<noteq> [] \<and> trimmedPm \<in> set PACKAGE_MANAGERS
                           then Some (options2\<lparr>optPackageManager := packageManagerOf trimmedPm\<rparr>,
                                      stdin3, asked)
                           else if trimmedPm \<noteq> []
                           then Some (options2, stdin3,
                                      asked @ [WarnInvalidPackageManager trimmedPm])
                           else Some (options2, stdin3, asked))"

definition collectOptions ::
  "World \<Rightarrow> CliArgs \<Rightarrow> string list \<Rightarrow> string list \<Rightarrow>
     (BootstrapOptions \<times> string list \<times> event list) option" where
  "collectOptions w cliArgs argv stdin =
     (let packageJsonValues = getCurrentPackageJsonValues w;
          options = mergeOptions cliArgs packageJsonValues
      in if \<not> shouldSkipInteractive cliArgs argv \<and> optInteractive options
         then (case promptForUserInput stdin options of
                 None \<Rightarrow> None
               | Some (options1, stdin1, asked) \<Rightarrow> Some (options1, stdin1, ReadPackageJson # asked))
         else Some (options, stdin, [ReadPackageJson]))"

definition confirmChanges :: "string \<Rightarrow> bool" where
  "confirmChanges answer =
     (let normalized = js_trim (toLowerCase answer)
      in normalized \<noteq> ''n'' \<and> normalized \<noteq> ''no'')"

text \<open>
  \<^verbatim>\<open>applyBootstrapChanges\<close>: whether it returned without throwing, the world it leaves
  and the events. \<^verbatim>\<open>npm pkg set\<close> throws when it fails (the two calls, for the name and
  for the description, are taken to succeed or fail together), and reading README.md or
  deploy.yml throws when the file is missing; what was written before stays written.
\<close>

definition applyBootstrapChanges :: "BootstrapOptions \<Rightarrow> World \<Rightarrow> bool \<times> World \<times> event list" where
  "applyBootstrapChanges options w =
     (if \<not> npmSetOk w then (False, w, [])
      else
        let w1 = w\<lparr>manifestSet := Some (optName options, optDescription options)\<rparr>
        in case readmeFile w1 of
             None \<Rightarrow> (False, w1, [Patched PackageJson])
           | Some readme \<Rightarrow>
               let w2 = w1\<lparr>readmeFile := Some (updateReadme (optName options) readme)\<rparr>;
                   w3 = w2\<lparr>envFile :=
                          Some (updateEnv (optName options) (optDescription options) (envFile w2))\<rparr>;
                   w4 = w3\<lparr>worktreesFile := Some (worktreesJson (optPackageManager options))\<rparr>
               in case deployFile w4 of
                    None \<Rightarrow> (False, w4, [Patched PackageJson, Patched ReadmeMd, Patched DotEnv,
                                          Patched WorktreesJson])
                  | Some deploy \<Rightarrow>
                      (True,
                       w4\<lparr>deployFile := Some (updateDeployYml (optPackageManager options) deploy)\<rparr>,
                       [Patched PackageJson, Patched ReadmeMd, Patched DotEnv,
                        Patched WorktreesJson, Patched DeployYml, Complete]))"

text \<open>
  The part of \<^verbatim>\<open>main\<close> after the confirmation: apply, then close the input; when
  applying throws, report the error and exit with code 1.
\<close>

definition applyAndFinish :: "BootstrapOptions \<Rightarrow> World \<Rightarrow> event list \<Rightarrow> Run" where
  "applyAndFinish options w earlier =
     (case applyBootstrapChanges options w of
        (True, w1, patched) \<Rightarrow>
          \<lparr>exitCode = 0, world = w1, events = earlier @ patched @ [CloseInput]\<rparr>
      | (False, w1, patched) \<Rightarrow>
          \<lparr>exitCode = 1, world = w1, events = earlier @ patched @ [ReportError]\<rparr>)"

text \<open>
  \<^verbatim>\<open>main\<close>, given the arguments, the lines waiting on the standard input and the
  world. The result is \<open>None\<close> when a question finds no line to read.
\<close>

definition main :: "string list \<Rightarrow> string list \<Rightarrow> World \<Rightarrow> Run option" where
  "main argv stdin w =
     (case parseArgs argv of
        Inl (ProcessExit code message) \<Rightarrow>
          Some \<lparr>exitCode = code, world = w, events = [ReportInvalidPackageManager message]\<rparr>
      | Inr cliArgs \<Rightarrow>
          (case collectOptions w cliArgs argv stdin of
             None \<Rightarrow> None
           | Some (options, stdin1, collected) \<Rightarrow>
               if optInteractive options then
                 (case stdin1 of
                    [] \<Rightarrow> None
                  | answer # stdin2 \<Rightarrow>
                      if \<not> confirmChanges answer
                      then Some \<lparr>exitCode = 0, world = w,
                                  events = ReadPackageJson # collected @
                                    [Summary, Question AskConfirm, Cancelled, CloseInput]\<rparr>
                      else Some (applyAndFinish options w
                                   (ReadPackageJson # collected @ [Summary, Question AskConfirm])))
               else Some (applyAndFinish options w (ReadPackageJson # collected))))"



text \<open>A world in which every file that the script reads is present, for concrete runs.\<close>

definition sampleWorld :: World where
  "sampleWorld =
     \<lparr>npmName = Some ''\"template\"\<newline>'',
      npmDescription = Some ''\"A template.\"\<newline>'',
      npmSetOk = True,
      manifestSet = None,
      readmeFile = Some ''# template\<newline>'',
      envFile = None,
      worktreesFile = None,
      deployFile = Some ''steps:\<newline>  - name: Install dependencies\<newline>    run: npm ci\<newline>''\<rparr>"



section \<open>Facts about the string helpers\<close>

lemma js_split_not_Nil: "js_split d s \<noteq> []"
  by (induction s) auto

lemma splitFrom_js_split:
  "splitFrom d cur s = (cur @ hd (js_split d s)) # tl (js_split d s)"
  by (induction s arbitrary: cur) (auto simp: js_split_not_Nil)

lemma js_split_run: "js_split d s = splitFrom d [] s"
  using js_split_not_Nil [of d s] by (simp add: splitFrom_js_split)

declare js_split_run [code]

lemma js_join_snoc: "js_join sep (xs @ [x]) = (if xs = [] then x else js_join sep xs @ sep @ x)"
  by (induction sep xs rule: js_join.induct) auto

lemma js_join_Cons: "js_join sep (x # xs) = (if xs = [] then x else x @ sep @ js_join sep xs)"
  by (cases xs) auto

lemma js_join_split: "js_join [d] (js_split d s) = s"
proof (induction s)
  case Nil
  show ?case by simp
next
  case (Cons c cs)
  obtain l ls where sp: "js_split d cs = l # ls"
    using js_split_not_Nil [of d cs] by (cases "js_split d cs") auto
  from Cons sp show ?case
    by (auto simp: js_join_Cons split: if_splits)
qed

lemma js_split_no_sep: "l \<in> set (js_split d s) \<Longrightarrow> d \<notin> set l"
proof (induction s arbitrary: l)
  case Nil
  then show ?case by simp
next
  case (Cons c cs)
  obtain x xs where sp: "js_split d cs = x # xs"
    using js_split_not_Nil [of d cs] by (cases "js_split d cs") auto
  from Cons sp show ?case
    by (auto split: if_splits)
qed

lemma js_split_single: "d \<notin> set x \<Longrightarrow> js_split d x = [x]"
  by (induction x) auto

lemma js_split_append_sep: "d \<notin> set x \<Longrightarrow> js_split d (x @ d # r) = x # js_split d r"
  by (induction x) auto

text \<open>Splitting undoes joining when no piece holds the separator.\<close>

lemma js_split_join:
  assumes "ls \<noteq> []" "\<forall>l\<in>set ls. d \<notin> set l"
  shows "js_split d (js_join [d] ls) = ls"
  using assms
proof (induction ls)
  case Nil
  then show ?case by simp
next
  case (Cons l ls)
  show ?case
  proof (cases "ls = []")
    case True
    with Cons.prems show ?thesis by (simp add: js_split_single)
  next
    case False
    with Cons have "js_split d (js_join [d] ls) = ls" by simp
    moreover from Cons.prems have "d \<notin> set l" by simp
    ultimately show ?thesis
      using False by (simp add: js_join_Cons js_split_append_sep del: js_split.simps)
  qed
qed

lemma js_join_middle:
  "js_join sep (A @ l # B) =
     (if A = [] then [] else js_join sep A @ sep) @ l @ (if B = [] then [] else sep @ js_join sep B)"
  by (induction sep A rule: js_join.induct) (auto simp: js_join_Cons)

lemma startsWithD: "startsWith s p \<Longrightarrow> s = p @ drop (length p) s"
  unfolding startsWith_def by (metis append_take_drop_id)

lemma endsWith_NL: "endsWith s NL \<longleftrightarrow> s \<noteq> [] \<and> last s = CHR 0x0A"
  by (cases s rule: rev_cases) (auto simp: endsWith_def startsWith_def)

lemma endsWith_NLNL: "endsWith s NLNL \<longleftrightarrow> (\<exists>r. s = r @ NLNL)"
proof (cases s rule: rev_cases)
  case Nil
  then show ?thesis by (simp add: endsWith_def startsWith_def)
next
  case (snoc ys y)
  then show ?thesis
    by (cases ys rule: rev_cases) (auto simp: endsWith_def startsWith_def)
qed

lemma endsWith_NLNL_NL: "endsWith s NLNL \<Longrightarrow> endsWith s NL"
  by (auto simp: endsWith_NLNL endsWith_NL)

lemma replace_middle_NL:
  assumes "x \<noteq> []" "y \<noteq> []" "last x \<noteq> CHR 0x0A" "last y \<noteq> CHR 0x0A"
  shows "endsWith (p @ x @ q) NL = endsWith (p @ y @ q) NL"
  using assms by (cases q rule: rev_cases) (auto simp: endsWith_NL)

lemma replace_middle_NLNL:
  assumes "x \<noteq> []" "y \<noteq> []" "last x \<noteq> CHR 0x0A" "last y \<noteq> CHR 0x0A"
  shows "endsWith (p @ x @ q) NLNL = endsWith (p @ y @ q) NLNL"
proof -
  obtain x' a where x: "x = x' @ [a]" using assms(1) by (cases x rule: rev_cases) auto
  obtain y' b where y: "y = y' @ [b]" using assms(2) by (cases y rule: rev_cases) auto
  show ?thesis
  proof (cases q rule: rev_cases)
    case Nil
    with assms x y show ?thesis by (auto simp: endsWith_def startsWith_def)
  next
    case (snoc q' c)
    note q = snoc
    show ?thesis
    proof (cases q' rule: rev_cases)
      case Nil
      with assms x y q show ?thesis by (auto simp: endsWith_def startsWith_def)
    next
      case (snoc q'' e)
      with q show ?thesis by (auto simp: endsWith_def startsWith_def)
    qed
  qed
qed

lemma js_trim_decomp:
  "dropWhile isWhiteSpace s =
     js_trim s @ rev (takeWhile isWhiteSpace (rev (dropWhile isWhiteSpace s)))"
proof -
  let ?t = "dropWhile isWhiteSpace s"
  have "js_trim s @ rev (takeWhile isWhiteSpace (rev ?t)) =
        rev (takeWhile isWhiteSpace (rev ?t) @ dropWhile isWhiteSpace (rev ?t))"
    by (simp only: js_trim_def rev_append)
  also have "\<dots> = ?t"
    by (simp only: takeWhile_dropWhile_id rev_rev_ident)
  finally show ?thesis by simp
qed

lemma js_trim_empty_iff: "js_trim l = [] \<longleftrightarrow> (\<forall>c\<in>set l. isWhiteSpace c)"
proof
  assume "js_trim l = []"
  then have a: "\<forall>c\<in>set (dropWhile isWhiteSpace l). isWhiteSpace c"
    by (simp add: js_trim_def dropWhile_eq_Nil_conv)
  have "dropWhile isWhiteSpace l = []"
  proof (rule ccontr)
    assume ne: "dropWhile isWhiteSpace l \<noteq> []"
    then have "\<not> isWhiteSpace (hd (dropWhile isWhiteSpace l))" by (rule hd_dropWhile)
    moreover from ne have "hd (dropWhile isWhiteSpace l) \<in> set (dropWhile isWhiteSpace l)"
      by (rule hd_in_set)
    ultimately show False using a by blast
  qed
  then show "\<forall>c\<in>set l. isWhiteSpace c"
    by (simp add: dropWhile_eq_Nil_conv)
next
  assume "\<forall>c\<in>set l. isWhiteSpace c"
  then show "js_trim l = []"
    by (auto simp: js_trim_def dest: set_dropWhileD)
qed


section \<open>Facts about the .env helpers\<close>

lemma removeTrailingEmptyLines_Nil: "removeTrailingEmptyLines [] = []"
  by (subst removeTrailingEmptyLines.simps) simp

lemma removeTrailingEmptyLines_single_empty: "removeTrailingEmptyLines [[]] = []"
  by (subst removeTrailingEmptyLines.simps) (simp add: js_trim_def removeTrailingEmptyLines_Nil)

lemma removeTrailingEmptyLines_eq:
  "removeTrailingEmptyLines ls = rev (dropWhile (\<lambda>l. js_trim l = []) (rev ls))"
proof (induction ls rule: rev_induct)
  case Nil
  show ?case by (simp add: removeTrailingEmptyLines_Nil)
next
  case (snoc x xs)
  show ?case
    using snoc by (subst removeTrailingEmptyLines.simps) (simp add: removeTrailingEmptyLines_Nil)
qed

lemma removeTrailingEmptyLines_decomp:
  "ls = removeTrailingEmptyLines ls @ rev (takeWhile (\<lambda>l. js_trim l = []) (rev ls))"
proof -
  let ?P = "\<lambda>l. js_trim l = []"
  have "removeTrailingEmptyLines ls @ rev (takeWhile ?P (rev ls)) =
        rev (takeWhile ?P (rev ls) @ dropWhile ?P (rev ls))"
    by (simp only: removeTrailingEmptyLines_eq rev_append)
  also have "\<dots> = ls"
    by (simp only: takeWhile_dropWhile_id rev_rev_ident)
  finally show ?thesis by simp
qed

lemma removeTrailingEmptyLines_take:
  "removeTrailingEmptyLines ls = take (length (removeTrailingEmptyLines ls)) ls"
proof -
  have "take (length (removeTrailingEmptyLines ls))
          (removeTrailingEmptyLines ls @ rev (takeWhile (\<lambda>l. js_trim l = []) (rev ls)))
        = removeTrailingEmptyLines ls" by simp
  then show ?thesis by (simp only: removeTrailingEmptyLines_decomp [symmetric])
qed

lemma removeTrailingEmptyLines_length_le: "length (removeTrailingEmptyLines ls) \<le> length ls"
  using length_dropWhile_le [of "\<lambda>l. js_trim l = []" "rev ls"]
  by (simp add: removeTrailingEmptyLines_eq)

lemma length_takeWhile_cong:
  "map P xs = map P ys \<Longrightarrow> length (takeWhile P xs) = length (takeWhile P ys)"
proof (induction xs arbitrary: ys)
  case Nil
  then show ?case by simp
next
  case (Cons x xs)
  then obtain y ys' where ys: "ys = y # ys'" by (cases ys) auto
  with Cons show ?case by auto
qed

lemma removeTrailingEmptyLines_length_cong:
  assumes "map (\<lambda>l. js_trim l = []) xs = map (\<lambda>l. js_trim l = []) ys"
  shows "length (removeTrailingEmptyLines xs) = length (removeTrailingEmptyLines ys)"
proof -
  let ?P = "\<lambda>l. js_trim l = []"
  from assms have "map ?P (rev xs) = map ?P (rev ys)" by (simp add: rev_map [symmetric])
  then have t: "length (takeWhile ?P (rev xs)) = length (takeWhile ?P (rev ys))"
    by (rule length_takeWhile_cong)
  from assms have l: "length xs = length ys" by (rule map_eq_imp_length_eq)
  have x: "length xs = length (removeTrailingEmptyLines xs) + length (takeWhile ?P (rev xs))"
    using arg_cong [OF removeTrailingEmptyLines_decomp [of xs], of length] by simp
  have y: "length ys = length (removeTrailingEmptyLines ys) + length (takeWhile ?P (rev ys))"
    using arg_cong [OF removeTrailingEmptyLines_decomp [of ys], of length] by simp
  from t l x y show ?thesis by simp
qed

lemma removeTrailingEmptyLines_dropped_blank:
  assumes "length (removeTrailingEmptyLines ls) \<le> i" "i < length ls"
  shows "js_trim (ls ! i) = []"
proof -
  let ?P = "\<lambda>l. js_trim l = []"
  let ?k = "length (removeTrailingEmptyLines ls)"
  let ?t = "rev (takeWhile ?P (rev ls))"
  have len: "length ls = ?k + length ?t"
    using arg_cong [OF removeTrailingEmptyLines_decomp [of ls], of length] by simp
  have "ls ! i = (removeTrailingEmptyLines ls @ ?t) ! i"
    by (simp only: removeTrailingEmptyLines_decomp [symmetric])
  also have "\<dots> = ?t ! (i - ?k)"
    using assms(1) by (simp add: nth_append)
  finally have "ls ! i = ?t ! (i - ?k)" .
  moreover have "i - ?k < length ?t" using assms len by simp
  ultimately have "ls ! i \<in> set ?t" by (metis nth_mem)
  then have "ls ! i \<in> set (takeWhile ?P (rev ls))" by simp
  then show ?thesis by (auto dest: set_takeWhileD)
qed

lemma envLine_not_Nil: "envLine key v \<noteq> []"
  by (simp add: envLine_def)

lemma envLine_last: "\<not> endsWith v NL \<Longrightarrow> last (envLine key v) \<noteq> CHR 0x0A"
  by (cases v rule: rev_cases) (auto simp: endsWith_NL envLine_def)

lemma isEnvVarLine_nonempty: "isEnvVarLine l key \<Longrightarrow> l \<noteq> []"
  by (auto simp: isEnvVarLine_def startsWith_def js_trim_def)

lemma isEnvVarLine_not_blank: "isEnvVarLine l key \<Longrightarrow> js_trim l \<noteq> []"
  by (auto simp: isEnvVarLine_def startsWith_def)

lemma isEnvVarLine_title_not_description:
  "isEnvVarLine l ENV_TITLE \<Longrightarrow> \<not> isEnvVarLine l ENV_DESCRIPTION"
proof
  assume t: "isEnvVarLine l ENV_TITLE" and d: "isEnvVarLine l ENV_DESCRIPTION"
  from d obtain r where r: "js_trim l = (ENV_DESCRIPTION @ ''='') @ r"
    unfolding isEnvVarLine_def by (blast dest: startsWithD)
  from t show False
    by (simp add: isEnvVarLine_def startsWith_def ENV_TITLE_def ENV_DESCRIPTION_def r)
qed

lemma envLine_title_not_description:
  "\<not> isEnvVarLine (envLine ENV_TITLE v) ENV_DESCRIPTION"
proof
  let ?s = "envLine ENV_TITLE v"
  assume d: "isEnvVarLine ?s ENV_DESCRIPTION"
  then obtain r where r: "js_trim ?s = (ENV_DESCRIPTION @ ''='') @ r"
    unfolding isEnvVarLine_def by (blast dest: startsWithD)
  have "dropWhile isWhiteSpace ?s = ?s"
    by (simp add: ENV_TITLE_def isWhiteSpace_def envLine_def)
  with js_trim_decomp [of ?s] obtain w where "?s = js_trim ?s @ w" by simp
  with r have "?s = (ENV_DESCRIPTION @ ''='') @ r @ w" by simp
  then show False by (simp add: ENV_TITLE_def ENV_DESCRIPTION_def envLine_def)
qed

lemma envLine_not_blank:
  "js_trim (envLine ENV_TITLE v) \<noteq> []" "js_trim (envLine ENV_DESCRIPTION v) \<noteq> []"
  by (simp_all add: js_trim_empty_iff ENV_TITLE_def ENV_DESCRIPTION_def isWhiteSpace_def
      envLine_def)

lemma updateEnvVarInPlace_eq:
  "updateEnvVarInPlace ls key v =
     (firstEnvVar ls key < length ls, ls[firstEnvVar ls key := envLine key v])"
  by (induction ls) (auto simp: firstEnvVar_def split: prod.splits)

lemma updateEnvVarInPlace_found:
  "fst (updateEnvVarInPlace ls key v) = hasEnvVar ls key"
  unfolding hasEnvVar_def by (induction ls) (auto split: prod.splits)

lemma hasEnvVar_first: "hasEnvVar ls key \<longleftrightarrow> firstEnvVar ls key < length ls"
  using updateEnvVarInPlace_found [of ls key "[]"]
  by (simp add: updateEnvVarInPlace_eq)

lemma firstEnvVar_is:
  "firstEnvVar ls key < length ls \<Longrightarrow> isEnvVarLine (ls ! firstEnvVar ls key) key"
  unfolding firstEnvVar_def
  using nth_length_takeWhile [of "\<lambda>l. \<not> isEnvVarLine l key" ls] by simp

lemma firstEnvVar_update:
  assumes "\<not> isEnvVarLine y key" "i < length ls \<Longrightarrow> \<not> isEnvVarLine (ls ! i) key"
  shows "firstEnvVar (ls[i := y]) key = firstEnvVar ls key"
  using assms
proof (induction ls arbitrary: i)
  case Nil
  then show ?case by simp
next
  case (Cons a ls)
  show ?case
  proof (cases i)
    case 0
    with Cons.prems show ?thesis by (simp add: firstEnvVar_def)
  next
    case (Suc j)
    with Cons.prems have "firstEnvVar (ls[j := y]) key = firstEnvVar ls key"
      by (intro Cons.IH) auto
    with Suc show ?thesis by (simp add: firstEnvVar_def)
  qed
qed

lemma map_update_same:
  "(i < length xs \<Longrightarrow> P y = P (xs ! i)) \<Longrightarrow> map P (xs[i := y]) = map P xs"
  by (induction xs arbitrary: i) (auto split: nat.splits)

lemma keptLength_le: "keptLength ls \<le> length ls"
  by (simp add: keptLength_def removeTrailingEmptyLines_length_le)

text \<open>The two in-place updates, one after the other, as two updates of the original array.\<close>

lemma updated_lines:
  "fst (updateEnvVarInPlace ls ENV_TITLE tv) = hasEnvVar ls ENV_TITLE"
  "fst (updateEnvVarInPlace (snd (updateEnvVarInPlace ls ENV_TITLE tv)) ENV_DESCRIPTION dv)
     = hasEnvVar ls ENV_DESCRIPTION"
  "snd (updateEnvVarInPlace (snd (updateEnvVarInPlace ls ENV_TITLE tv)) ENV_DESCRIPTION dv)
     = ls[firstEnvVar ls ENV_TITLE := envLine ENV_TITLE tv,
          firstEnvVar ls ENV_DESCRIPTION := envLine ENV_DESCRIPTION dv]"
proof -
  let ?iT = "firstEnvVar ls ENV_TITLE"
  let ?ls1 = "ls[?iT := envLine ENV_TITLE tv]"
  have same: "firstEnvVar ?ls1 ENV_DESCRIPTION = firstEnvVar ls ENV_DESCRIPTION"
  proof (rule firstEnvVar_update)
    show "\<not> isEnvVarLine (envLine ENV_TITLE tv) ENV_DESCRIPTION"
      by (rule envLine_title_not_description)
  next
    assume "?iT < length ls"
    then have "isEnvVarLine (ls ! ?iT) ENV_TITLE" by (rule firstEnvVar_is)
    then show "\<not> isEnvVarLine (ls ! ?iT) ENV_DESCRIPTION"
      by (rule isEnvVarLine_title_not_description)
  qed
  show "fst (updateEnvVarInPlace ls ENV_TITLE tv) = hasEnvVar ls ENV_TITLE"
    by (rule updateEnvVarInPlace_found)
  show "fst (updateEnvVarInPlace (snd (updateEnvVarInPlace ls ENV_TITLE tv)) ENV_DESCRIPTION dv)
     = hasEnvVar ls ENV_DESCRIPTION"
    by (simp add: updateEnvVarInPlace_eq same hasEnvVar_first)
  show "snd (updateEnvVarInPlace (snd (updateEnvVarInPlace ls ENV_TITLE tv)) ENV_DESCRIPTION dv)
     = ls[?iT := envLine ENV_TITLE tv,
          firstEnvVar ls ENV_DESCRIPTION := envLine ENV_DESCRIPTION dv]"
    by (simp add: updateEnvVarInPlace_eq same)
qed

lemma updated_blank_pattern:
  "map (\<lambda>l. js_trim l = [])
      (ls[firstEnvVar ls ENV_TITLE := envLine ENV_TITLE tv,
          firstEnvVar ls ENV_DESCRIPTION := envLine ENV_DESCRIPTION dv])
   = map (\<lambda>l. js_trim l = []) ls"
proof -
  let ?P = "\<lambda>l. js_trim l = []"
  let ?iT = "firstEnvVar ls ENV_TITLE" and ?iD = "firstEnvVar ls ENV_DESCRIPTION"
  let ?ls1 = "ls[?iT := envLine ENV_TITLE tv]"
  have a: "map ?P ?ls1 = map ?P ls"
  proof (rule map_update_same)
    assume "?iT < length ls"
    then have "isEnvVarLine (ls ! ?iT) ENV_TITLE" by (rule firstEnvVar_is)
    then have "js_trim (ls ! ?iT) \<noteq> []" by (rule isEnvVarLine_not_blank)
    with envLine_not_blank(1) [of tv]
    show "?P (envLine ENV_TITLE tv) = ?P (ls ! ?iT)" by simp
  qed
  have b: "map ?P (?ls1[?iD := envLine ENV_DESCRIPTION dv]) = map ?P ?ls1"
  proof (rule map_update_same)
    assume lt: "?iD < length ?ls1"
    then have "isEnvVarLine (ls ! ?iD) ENV_DESCRIPTION" by (simp add: firstEnvVar_is)
    then have old: "js_trim (ls ! ?iD) \<noteq> []" by (rule isEnvVarLine_not_blank)
    have "js_trim (?ls1 ! ?iD) \<noteq> []"
    proof (cases "?iD = ?iT")
      case True
      with lt envLine_not_blank(1) [of tv] show ?thesis by simp
    next
      case False
      with old show ?thesis by simp
    qed
    with envLine_not_blank(2) [of dv]
    show "?P (envLine ENV_DESCRIPTION dv) = ?P (?ls1 ! ?iD)" by simp
  qed
  from a b show ?thesis by simp
qed

lemma writeEnvLines_eq:
  "writeEnvLines env file =
    (let ls = js_split (CHR 0x0A) (fileContent file);
         u1 = updateEnvVarInPlace ls ENV_TITLE (envValue env ENV_TITLE);
         u2 = updateEnvVarInPlace (snd u1) ENV_DESCRIPTION (envValue env ENV_DESCRIPTION)
     in addMissingEnvVars (snd u2)
         ((if fst u1 then [] else [(ENV_TITLE, envValue env ENV_TITLE)]) @
          (if fst u2 then [] else [(ENV_DESCRIPTION, envValue env ENV_DESCRIPTION)])))"
  unfolding writeEnvLines_def Let_def case_prod_beta
  by simp

text \<open>
  The lines that \<^verbatim>\<open>writeEnvFile\<close> joins: the kept lines with the first assignment
  of each key overwritten, one empty line when something is appended to something, and
  the appended assignments.
\<close>

lemma writeEnvLines_structure:
  "writeEnvLines env file =
     take (keptLength (js_split (CHR 0x0A) (fileContent file)))
       ((js_split (CHR 0x0A) (fileContent file))
          [firstEnvVar (js_split (CHR 0x0A) (fileContent file)) ENV_TITLE :=
             envLine ENV_TITLE (envValue env ENV_TITLE),
           firstEnvVar (js_split (CHR 0x0A) (fileContent file)) ENV_DESCRIPTION :=
             envLine ENV_DESCRIPTION (envValue env ENV_DESCRIPTION)])
     @ (if addedLines env (js_split (CHR 0x0A) (fileContent file)) = [] \<or>
           keptLength (js_split (CHR 0x0A) (fileContent file)) = 0 then [] else [[]])
     @ addedLines env (js_split (CHR 0x0A) (fileContent file))"
proof -
  define ls where "ls = js_split (CHR 0x0A) (fileContent file)"
  define tv where "tv = envValue env ENV_TITLE"
  define dv where "dv = envValue env ENV_DESCRIPTION"
  define ls2 where "ls2 = ls[firstEnvVar ls ENV_TITLE := envLine ENV_TITLE tv,
                             firstEnvVar ls ENV_DESCRIPTION := envLine ENV_DESCRIPTION dv]"
  define vars where "vars = (if hasEnvVar ls ENV_TITLE then [] else [(ENV_TITLE, tv)]) @
                            (if hasEnvVar ls ENV_DESCRIPTION then [] else [(ENV_DESCRIPTION, dv)])"
  define k where "k = keptLength ls"
  define added where "added = addedLines env ls"
  have out: "writeEnvLines env file = addMissingEnvVars ls2 vars"
    unfolding writeEnvLines_eq Let_def updated_lines ls2_def vars_def ls_def tv_def dv_def
    by (rule refl)
  have vars_added: "map (\<lambda>(key, val). envLine key val) vars = added"
    by (simp add: vars_def added_def addedLines_def tv_def dv_def)
  have vars_nil: "vars = [] \<longleftrightarrow> added = []"
    unfolding vars_added [symmetric] by simp
  have len2: "length ls2 = length ls" by (simp add: ls2_def)
  have kle: "k \<le> length ls" unfolding k_def by (rule keptLength_le)
  have "addMissingEnvVars ls2 vars
          = take k ls2 @ (if added = [] \<or> k = 0 then [] else [[]]) @ added"
  proof (cases "vars = []")
    case True
    then have a: "added = []" using vars_nil by simp
    from True have "hasEnvVar ls ENV_TITLE \<and> hasEnvVar ls ENV_DESCRIPTION"
      by (auto simp: vars_def split: if_splits)
    then have "k = length ls" by (simp add: k_def keptLength_def)
    with True a len2 show ?thesis
      by (simp add: addMissingEnvVars_def)
  next
    case False
    then have a: "added \<noteq> []" using vars_nil by simp
    from False have "\<not> (hasEnvVar ls ENV_TITLE \<and> hasEnvVar ls ENV_DESCRIPTION)"
      by (auto simp: vars_def)
    then have k: "k = length (removeTrailingEmptyLines ls)" by (auto simp: k_def keptLength_def)
    have "length (removeTrailingEmptyLines ls2) = length (removeTrailingEmptyLines ls)"
      unfolding ls2_def by (rule removeTrailingEmptyLines_length_cong) (rule updated_blank_pattern)
    with removeTrailingEmptyLines_take [of ls2] k
    have r: "removeTrailingEmptyLines ls2 = take k ls2" by simp
    have kz: "ls2 = [] \<Longrightarrow> k = 0" using kle len2 by auto
    from False a kz show ?thesis
      by (auto simp: addMissingEnvVars_def r Let_def vars_added)
  qed
  then show ?thesis
    unfolding out ls2_def k_def added_def tv_def dv_def ls_def .
qed


lemma js_join_not_Nil: "l \<in> set ls \<Longrightarrow> l \<noteq> [] \<Longrightarrow> js_join sep ls \<noteq> []"
  by (induction ls) (auto simp: js_join_Cons)

text \<open>Something is always written: one of the lines is an assignment.\<close>

lemma writeEnvLines_joined_not_Nil: "js_join NL (writeEnvLines env file) \<noteq> []"
proof -
  define ls where "ls = js_split (CHR 0x0A) (fileContent file)"
  define d where "d = envLine ENV_DESCRIPTION (envValue env ENV_DESCRIPTION)"
  define ls1 where "ls1 = ls[firstEnvVar ls ENV_TITLE := envLine ENV_TITLE (envValue env ENV_TITLE)]"
  define added where "added = addedLines env ls"
  define sep where "sep = (if added = [] \<or> keptLength ls = 0 then [] else [[] :: string])"
  have out: "writeEnvLines env file
      = take (keptLength ls) (ls1[firstEnvVar ls ENV_DESCRIPTION := d]) @ sep @ added"
    unfolding writeEnvLines_structure [of env "file"] ls_def d_def ls1_def added_def sep_def ..
  have "\<exists>l\<in>set (writeEnvLines env file). l \<noteq> []"
  proof (cases "added = []")
    case True
    then have both: "hasEnvVar ls ENV_TITLE \<and> hasEnvVar ls ENV_DESCRIPTION"
      by (auto simp: added_def addedLines_def split: if_splits)
    then have k: "keptLength ls = length ls" by (simp add: keptLength_def)
    from both have i: "firstEnvVar ls ENV_DESCRIPTION < length ls1"
      by (simp add: hasEnvVar_first ls1_def)
    have "writeEnvLines env file = ls1[firstEnvVar ls ENV_DESCRIPTION := d]"
      by (simp add: out True k sep_def ls1_def)
    with i have "d \<in> set (writeEnvLines env file)"
      by (simp add: set_update_memI)
    moreover have "d \<noteq> []" by (simp add: d_def envLine_not_Nil)
    ultimately show ?thesis by blast
  next
    case False
    then have "hd added \<in> set added" by simp
    moreover have "hd added \<noteq> []"
      using False by (auto simp: added_def addedLines_def envLine_not_Nil split: if_splits)
    ultimately show ?thesis unfolding out by auto
  qed
  then obtain l where "l \<in> set (writeEnvLines env file)" "l \<noteq> []" by blast
  then show ?thesis by (rule js_join_not_Nil)
qed

lemma writeEnvFile_joined:
  "writeEnvFile env file =
     js_join NL (writeEnvLines env file) @
       (if endsWith (js_join NL (writeEnvLines env file)) NL then [] else NL)"
  using writeEnvLines_joined_not_Nil [of env "file"]
  by (simp add: writeEnvFile_def Let_def)

section \<open>README.md: running the patcher twice\<close>

lemma js_includes_append: "js_includes (a @ p @ b) p"
proof (induction a)
  case Nil
  show ?case
  proof (cases "p @ b")
    case Nil
    then show ?thesis by simp
  next
    case (Cons x xs)
    then have "js_includes (p @ b) p = (startsWith (p @ b) p \<or> js_includes xs p)" by simp
    then show ?thesis by (simp add: startsWith_def)
  qed
next
  case (Cons x a)
  then show ?case by simp
qed

lemma js_split_head:
  assumes "d \<notin> set h" "r = [] \<or> hd r = d"
  shows "js_split d (h @ r) = h # tl (js_split d (h @ r))"
  using assms
proof (induction h)
  case Nil
  then show ?case by (cases r) auto
next
  case (Cons c h)
  then have "js_split d (h @ r) = h # tl (js_split d (h @ r))" by simp
  then have "hd (js_split d (h @ r)) = h" by (metis list.sel(1))
  with Cons.prems show ?case by auto
qed

text \<open>The title step turns any content into the heading followed by nothing or by a newline.\<close>

lemma updateReadmeTitle_form:
  "\<exists>r. updateReadmeTitle content name = (''# '' @ name) @ r \<and> (r = [] \<or> hd r = CHR 0x0A)"
proof -
  obtain l ls where sp: "js_split (CHR 0x0A) content = l # ls"
    using js_split_not_Nil [of "CHR 0x0A" content] by (cases "js_split (CHR 0x0A) content") auto
  show ?thesis
  proof (cases "startsWith l ''#''")
    case True
    let ?r = "if ls = [] then [] else NL @ js_join NL ls"
    from True have "updateReadmeTitle content name = (''# '' @ name) @ ?r"
      by (simp add: updateReadmeTitle_def sp js_join_Cons)
    moreover have "?r = [] \<or> hd ?r = CHR 0x0A" by simp
    ultimately show ?thesis by blast
  next
    case False
    let ?r = "NL @ l @ (if ls = [] then [] else NL @ js_join NL ls)"
    from False have "updateReadmeTitle content name = (''# '' @ name) @ ?r"
      by (simp add: updateReadmeTitle_def sp js_join_Cons)
    moreover have "?r = [] \<or> hd ?r = CHR 0x0A" by simp
    ultimately show ?thesis by blast
  qed
qed

text \<open>On such a content the title step changes nothing, provided the name is one line.\<close>

lemma updateReadmeTitle_fixed:
  assumes name: "CHR 0x0A \<notin> set name" and r: "r = [] \<or> hd r = CHR 0x0A"
  shows "updateReadmeTitle ((''# '' @ name) @ r) name = (''# '' @ name) @ r"
proof -
  let ?h = "''# '' @ name"
  have h: "CHR 0x0A \<notin> set ?h" using name by simp
  note sp = js_split_head [OF h r]
  have first: "js_split (CHR 0x0A) (?h @ r) ! 0 = ?h"
    by (subst sp) simp
  have st: "startsWith ?h ''#''" by (simp add: startsWith_def)
  have "(js_split (CHR 0x0A) (?h @ r))[0 := ?h] = js_split (CHR 0x0A) (?h @ r)"
    by (subst (2) sp, subst sp) simp
  then have "updateReadmeTitle (?h @ r) name = js_join NL (js_split (CHR 0x0A) (?h @ r))"
    unfolding updateReadmeTitle_def Let_def first using st by simp
  then show ?thesis by (simp only: js_join_split)
qed

lemma updateReadme_form:
  "\<exists>r. updateReadme name content = (''# '' @ name) @ r \<and> (r = [] \<or> hd r = CHR 0x0A)"
proof -
  from updateReadmeTitle_form [of content name] obtain r where
    r: "updateReadmeTitle content name = (''# '' @ name) @ r" "r = [] \<or> hd r = CHR 0x0A"
    by blast
  show ?thesis
  proof (cases "js_includes (updateReadmeTitle content name) ''## Resources''")
    case True
    with r show ?thesis by (auto simp: updateReadme_def appendResourcesSection_def)
  next
    case False
    let ?sep = "if endsWith (updateReadmeTitle content name) NL then NL else NL @ NL"
    from False have "updateReadme name content
        = (''# '' @ name) @ (r @ ?sep @ RESOURCES_SECTION)"
      by (simp add: updateReadme_def appendResourcesSection_def r(1) Let_def)
    moreover have "hd (r @ ?sep @ RESOURCES_SECTION) = CHR 0x0A"
      using r(2) by (cases r) auto
    ultimately show ?thesis by blast
  qed
qed

lemma updateReadme_includes: "js_includes (updateReadme name content) ''## Resources''"
proof (cases "js_includes (updateReadmeTitle content name) ''## Resources''")
  case True
  then show ?thesis by (simp add: updateReadme_def appendResourcesSection_def)
next
  case False
  let ?sep = "if endsWith (updateReadmeTitle content name) NL then NL else NL @ NL"
  obtain b where b: "RESOURCES_SECTION = ''## Resources'' @ b"
    by (simp add: RESOURCES_SECTION_def)
  from False have "updateReadme name content
      = (updateReadmeTitle content name @ ?sep) @ ''## Resources'' @ b"
    by (simp add: updateReadme_def appendResourcesSection_def Let_def b)
  then show ?thesis by (simp only: js_includes_append)
qed

text \<open>
  C2, as the code has it. For a name that contains no newline character, running the
  title step and the section step a second time with the same name changes nothing: the
  result of the first run already carries the marker "## Resources", so the section step
  returns its input, and its first line is already the heading.
\<close>

theorem updateReadme_idempotent:
  assumes "CHR 0x0A \<notin> set name"
  shows "updateReadme name (updateReadme name content) = updateReadme name content \<and>
         appendResourcesSection (updateReadme name content) = updateReadme name content"
proof -
  from updateReadme_form [of name content] obtain r where
    r: "updateReadme name content = (''# '' @ name) @ r" "r = [] \<or> hd r = CHR 0x0A"
    by blast
  have t: "updateReadmeTitle (updateReadme name content) name = updateReadme name content"
    unfolding r(1) by (rule updateReadmeTitle_fixed [OF assms r(2)])
  have a: "appendResourcesSection (updateReadme name content) = updateReadme name content"
    using updateReadme_includes [of name content] by (simp add: appendResourcesSection_def)
  have "updateReadme name (updateReadme name content)
          = appendResourcesSection (updateReadmeTitle (updateReadme name content) name)"
    by (simp add: updateReadme_def)
  with t a show ?thesis by simp
qed

lemmas readme_eval =
  updateReadme_def updateReadmeTitle_def appendResourcesSection_def RESOURCES_SECTION_def
  startsWith_def endsWith_def js_split_run Let_def

theorem updateReadme_idempotent_witness:
  "CHR 0x0A \<notin> set ''demo'' \<and>
   updateReadme ''demo'' (updateReadme ''demo'' ''# old\<newline>text\<newline>'')
     = updateReadme ''demo'' ''# old\<newline>text\<newline>''"
  using updateReadme_idempotent [of "''demo''" "''# old\<newline>text\<newline>''"] by simp

text \<open>
  C2 as stated fails for a name of two lines, which a quoted command-line argument can
  carry: the first run writes both lines of the name, and the second run, which replaces
  the first line only, writes the second line of the name once more.
\<close>

theorem updateReadme_two_line_name:
  "updateReadme ''a\<newline>b'' ''text'' = ''# a\<newline>b\<newline>text\<newline>\<newline>'' @ RESOURCES_SECTION \<and>
   updateReadme ''a\<newline>b'' (updateReadme ''a\<newline>b'' ''text'')
     = ''# a\<newline>b\<newline>b\<newline>text\<newline>\<newline>'' @ RESOURCES_SECTION"
proof -
  have one: "updateReadme ''a\<newline>b'' ''text'' = ''# a\<newline>b\<newline>text\<newline>\<newline>'' @ RESOURCES_SECTION"
    by (simp add: readme_eval del: js_split.simps)
  have "updateReadme ''a\<newline>b'' (''# a\<newline>b\<newline>text\<newline>\<newline>'' @ RESOURCES_SECTION)
     = ''# a\<newline>b\<newline>b\<newline>text\<newline>\<newline>'' @ RESOURCES_SECTION"
    by (simp add: readme_eval del: js_split.simps)
  with one show ?thesis by simp
qed


section \<open>Argument parsing: the flags and their values\<close>

lemma collectLoop_eq:
  "collectLoop args i parts =
     (i + length (takeWhile (\<lambda>a. \<not> startsWith a ''--'') (drop i args)),
      parts @ takeWhile (\<lambda>a. \<not> startsWith a ''--'') (drop i args))"
proof (induction args i parts rule: collectLoop.induct)
  case (1 args i parts)
  show ?case
  proof (cases "i < length args")
    case False
    then show ?thesis by (subst collectLoop.simps) simp
  next
    case True
    then have d: "drop i args = args ! i # drop (Suc i) args"
      by (simp add: Cons_nth_drop_Suc)
    show ?thesis
    proof (cases "startsWith (args ! i) ''--''")
      case True
      then show ?thesis by (subst collectLoop.simps) (simp add: d)
    next
      case False
      with \<open>i < length args\<close> 1 show ?thesis
        by (subst collectLoop.simps) (simp add: d)
    qed
  qed
qed

lemma collectFlagValue_eq:
  "collectFlagValue args s =
     \<lparr>flagValue = js_join '' '' (takeWhile (\<lambda>a. \<not> startsWith a ''--'') (drop s args)),
      nextIndex = int s + int (length (takeWhile (\<lambda>a. \<not> startsWith a ''--'') (drop s args))) - 1\<rparr>"
  by (simp add: collectFlagValue_def collectLoop_eq)

lemmas args_eval =
  parseArgs_def noCliArgs_def parseLoop.simps collectFlagValue_eq argAt_def truthy_def
  validatePackageManager_def PACKAGE_MANAGERS_def packageManagerOf_def
  invalidPackageManagerMessage_def startsWith_def

text \<open>
  C3. The tokens --name a b c --description x give the name "a b c" and the description
  "x". In general \<^verbatim>\<open>collectFlagValue\<close> returns the tokens from its start index up to,
  and not including, the first token that starts with "--", joined with single spaces,
  and the index of the last token it took, so that the increment of the loop lands on the
  token that stopped the collection.
\<close>

theorem parseArgs_multi_word_name:
  "parseArgs [''--name'', ''a'', ''b'', ''c'', ''--description'', ''x'']
     = Inr \<lparr>cliName = Some ''a b c'', cliDescription = Some ''x'',
            cliPackageManager = None, cliInteractive = None\<rparr> \<and>
   flagValue (collectFlagValue args s)
     = js_join '' '' (takeWhile (\<lambda>a. \<not> startsWith a ''--'') (drop s args)) \<and>
   nat (nextIndex (collectFlagValue args (Suc s)) + 1)
     = Suc s + length (takeWhile (\<lambda>a. \<not> startsWith a ''--'') (drop (Suc s) args))"
proof -
  have "parseArgs [''--name'', ''a'', ''b'', ''c'', ''--description'', ''x'']
     = Inr \<lparr>cliName = Some ''a b c'', cliDescription = Some ''x'',
            cliPackageManager = None, cliInteractive = None\<rparr>"
    by (simp add: args_eval)
  then show ?thesis by (simp add: collectFlagValue_eq)
qed


text \<open>The loop of \<^verbatim>\<open>parseArgs\<close>, one branch at a time.\<close>

lemma parseLoop_end: "\<not> i < length args \<Longrightarrow> parseLoop args i options = Inr options"
  by (subst parseLoop.simps) simp

lemma parseLoop_name:
  "i < length args \<Longrightarrow> args ! i = ''--name'' \<Longrightarrow>
   parseLoop args i options =
     parseLoop args (nat (nextIndex (collectFlagValue args (Suc i)) + 1))
       (if flagValue (collectFlagValue args (Suc i)) \<noteq> []
        then options\<lparr>cliName := Some (flagValue (collectFlagValue args (Suc i)))\<rparr>
        else options)"
  by (subst parseLoop.simps) simp

lemma parseLoop_description:
  "i < length args \<Longrightarrow> args ! i = ''--description'' \<Longrightarrow>
   parseLoop args i options =
     parseLoop args (nat (nextIndex (collectFlagValue args (Suc i)) + 1))
       (if flagValue (collectFlagValue args (Suc i)) \<noteq> []
        then options\<lparr>cliDescription := Some (flagValue (collectFlagValue args (Suc i)))\<rparr>
        else options)"
  by (subst parseLoop.simps) simp

lemma parseLoop_packageManager:
  "i < length args \<Longrightarrow> args ! i = ''--packageManager'' \<Longrightarrow> truthy (argAt args (Suc i)) \<Longrightarrow>
   parseLoop args i options =
     (case validatePackageManager (args ! (Suc i)) of
        Inl stop \<Rightarrow> Inl stop
      | Inr pm \<Rightarrow> parseLoop args (Suc (Suc i)) (options\<lparr>cliPackageManager := Some pm\<rparr>))"
  by (subst parseLoop.simps) simp

lemma parseLoop_packageManager_ignored:
  "i < length args \<Longrightarrow> args ! i = ''--packageManager'' \<Longrightarrow> \<not> truthy (argAt args (Suc i)) \<Longrightarrow>
   parseLoop args i options = parseLoop args (Suc i) options"
  by (subst parseLoop.simps) simp

lemma parseLoop_interactive:
  "i < length args \<Longrightarrow> args ! i = ''--interactive'' \<Longrightarrow>
   parseLoop args i options =
     (if argAt args (Suc i) = Some ''false'' \<or> argAt args (Suc i) = Some ''0''
      then parseLoop args (Suc (Suc i)) (options\<lparr>cliInteractive := Some False\<rparr>)
      else parseLoop args (Suc i) (options\<lparr>cliInteractive := Some True\<rparr>))"
  by (subst parseLoop.simps) simp

lemma parseLoop_no_interactive:
  "i < length args \<Longrightarrow> args ! i = ''--no-interactive'' \<Longrightarrow>
   parseLoop args i options = parseLoop args (Suc i) (options\<lparr>cliInteractive := Some False\<rparr>)"
  by (subst parseLoop.simps) simp

lemma parseLoop_other:
  "i < length args \<Longrightarrow> args ! i \<noteq> ''--name'' \<Longrightarrow> args ! i \<noteq> ''--description'' \<Longrightarrow>
   args ! i \<noteq> ''--packageManager'' \<Longrightarrow> args ! i \<noteq> ''--interactive'' \<Longrightarrow>
   args ! i \<noteq> ''--no-interactive'' \<Longrightarrow>
   parseLoop args i options = parseLoop args (Suc i) options"
  by (subst parseLoop.simps) simp

lemma takeWhile_snoc_stop: "\<not> P y \<Longrightarrow> takeWhile P (xs @ [y]) = takeWhile P xs"
  by (induction xs) auto

lemma collectFlagValue_trailing:
  assumes "s \<le> length args" "startsWith y ''--''"
  shows "collectFlagValue (args @ [y]) s = collectFlagValue args s"
  using assms by (simp add: collectFlagValue_eq takeWhile_snoc_stop)

lemma collect_next_le:
  "s \<le> length args \<Longrightarrow>
   nat (nextIndex (collectFlagValue args (Suc s)) + 1) \<le> max (Suc s) (length args)"
proof -
  have "length (takeWhile (\<lambda>a. \<not> startsWith a ''--'') (drop (Suc s) args))
          \<le> length (drop (Suc s) args)"
    by (rule length_takeWhile_le)
  then show ?thesis by (simp add: collectFlagValue_eq)
qed

text \<open>
  A last token --packageManager, after a token that is not --packageManager itself, does
  not change what the loop returns from any index of the shorter list.
\<close>

lemma parseLoop_trailing:
  assumes "args = [] \<or> last args \<noteq> ''--packageManager''" "j \<le> length args"
  shows "parseLoop (args @ [''--packageManager'']) j options = parseLoop args j options"
  using assms
proof (induction args j options rule: parseLoop.induct)
  case (1 args i options)
  let ?ext = "args @ [''--packageManager'']"
  have pm: "startsWith ''--packageManager'' ''--''" by (simp add: startsWith_def)
  show ?case
  proof (cases "i < length args")
    case False
    with "1.prems" have i: "i = length args" by simp
    have "parseLoop ?ext i options = parseLoop ?ext (Suc i) options"
      by (rule parseLoop_packageManager_ignored) (simp_all add: i argAt_def truthy_def)
    also have "\<dots> = Inr options" by (rule parseLoop_end) (simp add: i)
    also have "\<dots> = parseLoop args i options"
      using False by (simp add: parseLoop_end)
    finally show ?thesis .
  next
    case True
    then have ie: "i < length ?ext" and nth: "?ext ! i = args ! i"
      by (simp_all add: nth_append)
    from True have s: "Suc i \<le> length args" by simp
    note cf = collectFlagValue_trailing [OF s pm]
    have nx: "nat (nextIndex (collectFlagValue args (Suc i)) + 1) \<le> length args"
      using collect_next_le [of i args] True by simp
    consider (name) "args ! i = ''--name''" | (description) "args ! i = ''--description''"
      | (pm) "args ! i = ''--packageManager''" | (inter) "args ! i = ''--interactive''"
      | (nointer) "args ! i = ''--no-interactive''"
      | (other) "args ! i \<noteq> ''--name''" "args ! i \<noteq> ''--description''"
          "args ! i \<noteq> ''--packageManager''" "args ! i \<noteq> ''--interactive''"
          "args ! i \<noteq> ''--no-interactive''"
      by blast
    then show ?thesis
    proof cases
      case name
      have "parseLoop ?ext i options
          = parseLoop ?ext (nat (nextIndex (collectFlagValue args (Suc i)) + 1))
              (if flagValue (collectFlagValue args (Suc i)) \<noteq> []
               then options\<lparr>cliName := Some (flagValue (collectFlagValue args (Suc i)))\<rparr>
               else options)"
        using parseLoop_name [of i ?ext options] ie nth name by (simp add: cf)
      also have "\<dots> = parseLoop args (nat (nextIndex (collectFlagValue args (Suc i)) + 1))
              (if flagValue (collectFlagValue args (Suc i)) \<noteq> []
               then options\<lparr>cliName := Some (flagValue (collectFlagValue args (Suc i)))\<rparr>
               else options)"
        using "1.IH"(1) True name "1.prems"(1) nx by simp
      also have "\<dots> = parseLoop args i options"
        using parseLoop_name [of i args options] True name by simp
      finally show ?thesis .
    next
      case description
      have "parseLoop ?ext i options
          = parseLoop ?ext (nat (nextIndex (collectFlagValue args (Suc i)) + 1))
              (if flagValue (collectFlagValue args (Suc i)) \<noteq> []
               then options\<lparr>cliDescription := Some (flagValue (collectFlagValue args (Suc i)))\<rparr>
               else options)"
        using parseLoop_description [of i ?ext options] ie nth description by (simp add: cf)
      also have "\<dots> = parseLoop args (nat (nextIndex (collectFlagValue args (Suc i)) + 1))
              (if flagValue (collectFlagValue args (Suc i)) \<noteq> []
               then options\<lparr>cliDescription := Some (flagValue (collectFlagValue args (Suc i)))\<rparr>
               else options)"
        using "1.IH"(2) True description "1.prems"(1) nx by simp
      also have "\<dots> = parseLoop args i options"
        using parseLoop_description [of i args options] True description by simp
      finally show ?thesis .
    next
      case pm
      have notlast: "Suc i < length args"
      proof (rule ccontr)
        assume "\<not> Suc i < length args"
        with True have i: "i = length args - 1" and ne: "args \<noteq> []" by auto
        from ne have "last args = args ! (length args - 1)" by (rule last_conv_nth)
        with i have "args ! i = last args" by simp
        with pm "1.prems"(1) ne show False by auto
      qed
      then have at: "argAt ?ext (Suc i) = argAt args (Suc i)" and nth1: "?ext ! (Suc i) = args ! (Suc i)"
        by (simp_all add: argAt_def nth_append)
      show ?thesis
      proof (cases "truthy (argAt args (Suc i))")
        case False
        have "parseLoop ?ext i options = parseLoop ?ext (Suc i) options"
          using parseLoop_packageManager_ignored [of i ?ext options] ie nth pm at False by simp
        also have "\<dots> = parseLoop args (Suc i) options"
          using "1.IH"(7) True pm False "1.prems"(1) notlast by simp
        also have "\<dots> = parseLoop args i options"
          using parseLoop_packageManager_ignored [of i args options] True pm False by simp
        finally show ?thesis .
      next
        case tr: True
        have l: "parseLoop ?ext i options =
           (case validatePackageManager (args ! (Suc i)) of
              Inl stop \<Rightarrow> Inl stop
            | Inr p \<Rightarrow> parseLoop ?ext (Suc (Suc i)) (options\<lparr>cliPackageManager := Some p\<rparr>))"
          using parseLoop_packageManager [of i ?ext options] ie nth pm at tr nth1 by simp
        have r: "parseLoop args i options =
           (case validatePackageManager (args ! (Suc i)) of
              Inl stop \<Rightarrow> Inl stop
            | Inr p \<Rightarrow> parseLoop args (Suc (Suc i)) (options\<lparr>cliPackageManager := Some p\<rparr>))"
          using parseLoop_packageManager [of i args options] True pm tr by simp
        show ?thesis
        proof (cases "validatePackageManager (args ! (Suc i))")
          case (Inl stop)
          with l r show ?thesis by simp
        next
          case (Inr p)
          have "parseLoop ?ext (Suc (Suc i)) (options\<lparr>cliPackageManager := Some p\<rparr>)
              = parseLoop args (Suc (Suc i)) (options\<lparr>cliPackageManager := Some p\<rparr>)"
            using "1.IH"(3) [OF _ _ _ _ Inr] True pm tr "1.prems"(1) notlast by simp
          with l r Inr show ?thesis by simp
        qed
      qed
    next
      case inter
      show ?thesis
      proof (cases "argAt args (Suc i) = Some ''false'' \<or> argAt args (Suc i) = Some ''0''")
        case yes: True
        then have lt: "Suc i < length args" by (auto simp: argAt_def split: if_splits)
        then have at: "argAt ?ext (Suc i) = argAt args (Suc i)"
          by (simp add: argAt_def nth_append)
        have "parseLoop ?ext i options
            = parseLoop ?ext (Suc (Suc i)) (options\<lparr>cliInteractive := Some False\<rparr>)"
          using parseLoop_interactive [of i ?ext options] ie nth inter at yes by simp
        also have "\<dots> = parseLoop args (Suc (Suc i)) (options\<lparr>cliInteractive := Some False\<rparr>)"
          using "1.IH"(4) True inter yes "1.prems"(1) lt by simp
        also have "\<dots> = parseLoop args i options"
          using parseLoop_interactive [of i args options] True inter yes by simp
        finally show ?thesis .
      next
        case no: False
        have at: "\<not> (argAt ?ext (Suc i) = Some ''false'' \<or> argAt ?ext (Suc i) = Some ''0'')"
          using no by (auto simp: argAt_def nth_append split: if_splits)
        have "parseLoop ?ext i options
            = parseLoop ?ext (Suc i) (options\<lparr>cliInteractive := Some True\<rparr>)"
          using parseLoop_interactive [of i ?ext options] ie nth inter at by simp
        also have "\<dots> = parseLoop args (Suc i) (options\<lparr>cliInteractive := Some True\<rparr>)"
          using "1.IH"(5) True inter no "1.prems"(1) by simp
        also have "\<dots> = parseLoop args i options"
          using parseLoop_interactive [of i args options] True inter no by simp
        finally show ?thesis .
      qed
    next
      case nointer
      have "parseLoop ?ext i options
          = parseLoop ?ext (Suc i) (options\<lparr>cliInteractive := Some False\<rparr>)"
        using parseLoop_no_interactive [of i ?ext options] ie nth nointer by simp
      also have "\<dots> = parseLoop args (Suc i) (options\<lparr>cliInteractive := Some False\<rparr>)"
        using "1.IH"(6) True nointer "1.prems"(1) by simp
      also have "\<dots> = parseLoop args i options"
        using parseLoop_no_interactive [of i args options] True nointer by simp
      finally show ?thesis .
    next
      case other
      have "parseLoop ?ext i options = parseLoop ?ext (Suc i) options"
        using parseLoop_other [of i ?ext options] ie nth other by simp
      also have "\<dots> = parseLoop args (Suc i) options"
        using "1.IH"(7) True other "1.prems"(1) by simp
      also have "\<dots> = parseLoop args i options"
        using parseLoop_other [of i args options] True other by simp
      finally show ?thesis .
    qed
  qed
qed


section \<open>An invalid package manager stops the run before anything else\<close>

lemma takeWhile_stops_before:
  assumes "s \<le> k" "k < length xs" "\<not> P (xs ! k)"
  shows "s + length (takeWhile P (drop s xs)) \<le> k"
proof (rule ccontr)
  assume "\<not> s + length (takeWhile P (drop s xs)) \<le> k"
  with assms(1) have lt: "k - s < length (takeWhile P (drop s xs))" by simp
  then have "takeWhile P (drop s xs) ! (k - s) = drop s xs ! (k - s)"
    by (rule takeWhile_nth)
  also have "\<dots> = xs ! k" using assms(1,2) by simp
  finally have "xs ! k \<in> set (takeWhile P (drop s xs))"
    using lt by (metis nth_mem)
  then have "P (xs ! k)" by (auto dest: set_takeWhileD)
  with assms(3) show False by simp
qed

lemma collect_next_before_flag:
  assumes "i < k" "k < length args" "startsWith (args ! k) ''--''"
  shows "nat (nextIndex (collectFlagValue args (Suc i)) + 1) \<le> k"
proof -
  have "Suc i + length (takeWhile (\<lambda>a. \<not> startsWith a ''--'') (drop (Suc i) args)) \<le> k"
    by (rule takeWhile_stops_before) (use assms in simp_all)
  then show ?thesis by (simp add: collectFlagValue_eq)
qed

lemma validatePackageManager_Inl:
  "validatePackageManager v = Inl stop \<Longrightarrow>
     v \<notin> set PACKAGE_MANAGERS \<and> stop = ProcessExit 1 (invalidPackageManagerMessage v)"
  by (auto simp: validatePackageManager_def split: if_splits)

lemma validatePackageManager_invalid:
  "v \<notin> set PACKAGE_MANAGERS \<Longrightarrow>
     validatePackageManager v = Inl (ProcessExit 1 (invalidPackageManagerMessage v))"
  by (simp add: validatePackageManager_def)

lemma parseLoop_invalid:
  assumes "Suc k < length args" "args ! k = ''--packageManager''"
    "args ! Suc k \<noteq> []" "args ! Suc k \<notin> set PACKAGE_MANAGERS" "j \<le> k"
  shows "\<exists>u. u \<notin> set PACKAGE_MANAGERS \<and>
           parseLoop args j options = Inl (ProcessExit 1 (invalidPackageManagerMessage u)) \<and>
           ((\<forall>m. j \<le> m \<and> m < k \<longrightarrow> args ! m \<noteq> ''--packageManager'') \<longrightarrow> u = args ! Suc k)"
  using assms
proof (induction args j options rule: parseLoop.induct)
  case (1 args i options)
  note k = "1.prems"(1) and flag = "1.prems"(2) and ne = "1.prems"(3) and bad = "1.prems"(4)
    and ik = "1.prems"(5)
  from k ik have il: "i < length args" by simp
  have flagk: "startsWith (args ! k) ''--''" by (simp add: flag startsWith_def)
  have pmk: "''--packageManager'' \<notin> set PACKAGE_MANAGERS" by (simp add: PACKAGE_MANAGERS_def)
  have truthyk: "truthy (argAt args (Suc k))" using k ne by (simp add: truthy_def argAt_def)
  let ?goal = "\<lambda>j opts. \<exists>u. u \<notin> set PACKAGE_MANAGERS \<and>
           parseLoop args j opts = Inl (ProcessExit 1 (invalidPackageManagerMessage u)) \<and>
           ((\<forall>m. j \<le> m \<and> m < k \<longrightarrow> args ! m \<noteq> ''--packageManager'') \<longrightarrow> u = args ! Suc k)"
  have weaken: "?goal i options" if "?goal j opts" "parseLoop args i options = parseLoop args j opts"
    "i \<le> j" for j opts
  proof -
    from that(1) obtain u where u: "u \<notin> set PACKAGE_MANAGERS"
      "parseLoop args j opts = Inl (ProcessExit 1 (invalidPackageManagerMessage u))"
      "(\<forall>m. j \<le> m \<and> m < k \<longrightarrow> args ! m \<noteq> ''--packageManager'') \<longrightarrow> u = args ! Suc k"
      by blast
    have "(\<forall>m. i \<le> m \<and> m < k \<longrightarrow> args ! m \<noteq> ''--packageManager'') \<longrightarrow> u = args ! Suc k"
    proof
      assume a: "\<forall>m. i \<le> m \<and> m < k \<longrightarrow> args ! m \<noteq> ''--packageManager''"
      have "\<forall>m. j \<le> m \<and> m < k \<longrightarrow> args ! m \<noteq> ''--packageManager''"
      proof (intro allI impI)
        fix m assume "j \<le> m \<and> m < k"
        with that(3) have "i \<le> m \<and> m < k" by simp
        with a show "args ! m \<noteq> ''--packageManager''" by blast
      qed
      with u(3) show "u = args ! Suc k" by blast
    qed
    with u(1,2) that(2) show ?thesis by (intro exI [of _ u]) simp
  qed
  consider (name) "args ! i = ''--name''" | (description) "args ! i = ''--description''"
    | (pm) "args ! i = ''--packageManager''" | (inter) "args ! i = ''--interactive''"
    | (nointer) "args ! i = ''--no-interactive''"
    | (other) "args ! i \<noteq> ''--name''" "args ! i \<noteq> ''--description''"
        "args ! i \<noteq> ''--packageManager''" "args ! i \<noteq> ''--interactive''"
        "args ! i \<noteq> ''--no-interactive''"
    by blast
  then show ?case
  proof cases
    case name
    with flag have "i \<noteq> k" by auto
    with ik have lt: "i < k" by simp
    let ?j = "nat (nextIndex (collectFlagValue args (Suc i)) + 1)"
    let ?o = "if flagValue (collectFlagValue args (Suc i)) \<noteq> []
              then options\<lparr>cliName := Some (flagValue (collectFlagValue args (Suc i)))\<rparr>
              else options"
    have jk: "?j \<le> k" using lt k flagk by (intro collect_next_before_flag) simp_all
    have ij: "i \<le> ?j" by (simp add: collectFlagValue_eq)
    have "?goal ?j ?o"
      using "1.IH"(1) il name k flag ne bad jk by simp
    moreover have "parseLoop args i options = parseLoop args ?j ?o"
      using il name by (rule parseLoop_name)
    ultimately show ?thesis using ij by (rule weaken)
  next
    case description
    with flag have "i \<noteq> k" by auto
    with ik have lt: "i < k" by simp
    let ?j = "nat (nextIndex (collectFlagValue args (Suc i)) + 1)"
    let ?o = "if flagValue (collectFlagValue args (Suc i)) \<noteq> []
              then options\<lparr>cliDescription := Some (flagValue (collectFlagValue args (Suc i)))\<rparr>
              else options"
    have jk: "?j \<le> k" using lt k flagk by (intro collect_next_before_flag) simp_all
    have ij: "i \<le> ?j" by (simp add: collectFlagValue_eq)
    have "?goal ?j ?o"
      using "1.IH"(2) il description k flag ne bad jk by simp
    moreover have "parseLoop args i options = parseLoop args ?j ?o"
      using il description by (rule parseLoop_description)
    ultimately show ?thesis using ij by (rule weaken)
  next
    case pm
    show ?thesis
    proof (cases "i = k")
      case True
      have "parseLoop args i options =
          (case validatePackageManager (args ! Suc i) of
             Inl stop \<Rightarrow> Inl stop
           | Inr p \<Rightarrow> parseLoop args (Suc (Suc i)) (options\<lparr>cliPackageManager := Some p\<rparr>))"
        using il pm truthyk True by (intro parseLoop_packageManager) simp_all
      then have "parseLoop args i options
          = Inl (ProcessExit 1 (invalidPackageManagerMessage (args ! Suc k)))"
        using bad True by (simp add: validatePackageManager_invalid)
      with bad show ?thesis by blast
    next
      case False
      with ik have lt: "i < k" by simp
      show ?thesis
      proof (cases "truthy (argAt args (Suc i))")
        case tr: True
        have step: "parseLoop args i options =
          (case validatePackageManager (args ! Suc i) of
             Inl stop \<Rightarrow> Inl stop
           | Inr p \<Rightarrow> parseLoop args (Suc (Suc i)) (options\<lparr>cliPackageManager := Some p\<rparr>))"
          using il pm tr by (rule parseLoop_packageManager)
        show ?thesis
        proof (cases "validatePackageManager (args ! Suc i)")
          case (Inl stop)
          from validatePackageManager_Inl [OF Inl] step Inl
          have "args ! Suc i \<notin> set PACKAGE_MANAGERS"
            and "parseLoop args i options
                  = Inl (ProcessExit 1 (invalidPackageManagerMessage (args ! Suc i)))"
            by simp_all
          moreover have "\<not> (\<forall>m. i \<le> m \<and> m < k \<longrightarrow> args ! m \<noteq> ''--packageManager'')"
            using pm lt by auto
          ultimately show ?thesis by blast
        next
          case (Inr p)
          have "Suc i \<noteq> k"
          proof
            assume "Suc i = k"
            with flag pmk have "validatePackageManager (args ! Suc i)
                = Inl (ProcessExit 1 (invalidPackageManagerMessage (args ! Suc i)))"
              by (simp add: validatePackageManager_invalid)
            with Inr show False by simp
          qed
          with lt have jk: "Suc (Suc i) \<le> k" by simp
          have "?goal (Suc (Suc i)) (options\<lparr>cliPackageManager := Some p\<rparr>)"
            using "1.IH"(3) [OF _ _ _ _ Inr] il pm tr k flag ne bad jk by simp
          moreover have "parseLoop args i options
              = parseLoop args (Suc (Suc i)) (options\<lparr>cliPackageManager := Some p\<rparr>)"
            using step Inr by simp
          ultimately show ?thesis by (rule weaken) simp
        qed
      next
        case fa: False
        have "?goal (Suc i) options"
          using "1.IH"(7) il pm fa k flag ne bad lt by simp
        moreover have "parseLoop args i options = parseLoop args (Suc i) options"
          using il pm fa by (rule parseLoop_packageManager_ignored)
        ultimately have "\<exists>u. u \<notin> set PACKAGE_MANAGERS \<and>
           parseLoop args i options = Inl (ProcessExit 1 (invalidPackageManagerMessage u))"
          by auto
        moreover have "\<not> (\<forall>m. i \<le> m \<and> m < k \<longrightarrow> args ! m \<noteq> ''--packageManager'')"
          using pm lt by auto
        ultimately show ?thesis by blast
      qed
    qed
  next
    case inter
    with flag have "i \<noteq> k" by auto
    with ik have lt: "i < k" by simp
    have step: "parseLoop args i options =
        (if argAt args (Suc i) = Some ''false'' \<or> argAt args (Suc i) = Some ''0''
         then parseLoop args (Suc (Suc i)) (options\<lparr>cliInteractive := Some False\<rparr>)
         else parseLoop args (Suc i) (options\<lparr>cliInteractive := Some True\<rparr>))"
      using il inter by (rule parseLoop_interactive)
    show ?thesis
    proof (cases "argAt args (Suc i) = Some ''false'' \<or> argAt args (Suc i) = Some ''0''")
      case True
      have "Suc i \<noteq> k"
      proof
        assume "Suc i = k"
        with k flag have "argAt args (Suc i) = Some ''--packageManager''" by (simp add: argAt_def)
        with True show False by simp
      qed
      with lt have jk: "Suc (Suc i) \<le> k" by simp
      have "?goal (Suc (Suc i)) (options\<lparr>cliInteractive := Some False\<rparr>)"
        using "1.IH"(4) il inter True k flag ne bad jk by simp
      moreover have "parseLoop args i options
          = parseLoop args (Suc (Suc i)) (options\<lparr>cliInteractive := Some False\<rparr>)"
        using step True by simp
      ultimately show ?thesis by (rule weaken) simp
    next
      case False
      have "?goal (Suc i) (options\<lparr>cliInteractive := Some True\<rparr>)"
        using "1.IH"(5) il inter False k flag ne bad lt by simp
      moreover have "parseLoop args i options
          = parseLoop args (Suc i) (options\<lparr>cliInteractive := Some True\<rparr>)"
        using step False by simp
      ultimately show ?thesis by (rule weaken) simp
    qed
  next
    case nointer
    with flag have "i \<noteq> k" by auto
    with ik have lt: "i < k" by simp
    have "?goal (Suc i) (options\<lparr>cliInteractive := Some False\<rparr>)"
      using "1.IH"(6) il nointer k flag ne bad lt by simp
    moreover have "parseLoop args i options
        = parseLoop args (Suc i) (options\<lparr>cliInteractive := Some False\<rparr>)"
      using il nointer by (rule parseLoop_no_interactive)
    ultimately show ?thesis by (rule weaken) simp
  next
    case other
    with flag have "i \<noteq> k" by auto
    with ik have lt: "i < k" by simp
    have "?goal (Suc i) options"
      using "1.IH"(7) il other k flag ne bad lt by simp
    moreover have "parseLoop args i options = parseLoop args (Suc i) options"
      using il other by (rule parseLoop_other)
    ultimately show ?thesis by (rule weaken) simp
  qed
qed


section \<open>deploy.yml: where the pattern matches\<close>

lemma span_all:
  assumes "\<forall>c\<in>set u. P c" "v = [] \<or> \<not> P (hd v)"
  shows "takeWhile P (u @ v) = u" and "dropWhile P (u @ v) = v"
proof -
  have t: "takeWhile P v = []" and d: "dropWhile P v = v"
    using assms(2) by (cases v; simp)+
  from assms(1) show "takeWhile P (u @ v) = u" by (simp add: t)
  from assms(1) show "dropWhile P (u @ v) = v" by (simp add: d)
qed

lemma span_some:
  assumes "\<not> (\<forall>c\<in>set u. P c)"
  shows "takeWhile P (u @ v) = takeWhile P u" and "dropWhile P (u @ v) = dropWhile P u @ v"
    and "dropWhile P u \<noteq> []"
proof -
  from assms obtain x where x: "x \<in> set u" "\<not> P x" by blast
  then show "takeWhile P (u @ v) = takeWhile P u" by (rule takeWhile_append1)
  from x show "dropWhile P (u @ v) = dropWhile P u @ v" by (rule dropWhile_append1)
  from assms show "dropWhile P u \<noteq> []" by (simp add: dropWhile_eq_Nil_conv)
qed

lemma stripPrefix_append: "stripPrefix p (p @ s) = Some s"
  by (simp add: stripPrefix_def startsWith_def)

text \<open>The pattern matches where white space is followed by the step and its run line.\<close>

lemma installPatternAt_match:
  assumes u: "u \<noteq> []" "\<forall>c\<in>set u. isWhiteSpace c"
    and w2: "w2 \<noteq> []" "\<forall>c\<in>set w2. isWhiteSpace c"
    and old: "old \<noteq> []" "\<forall>c\<in>set old. \<not> isLineTerminator c"
    and a: "a = [] \<or> isLineTerminator (hd a)"
  shows "installPatternAt (u @ STEP_NAME @ w2 @ RUN_KEY @ old @ a)
           = Some (u @ STEP_NAME @ w2 @ RUN_KEY, old, a)"
proof -
  have n: "\<not> isWhiteSpace (hd (STEP_NAME @ w2 @ RUN_KEY @ old @ a))"
    by (simp add: STEP_NAME_def isWhiteSpace_def)
  have r: "\<not> isWhiteSpace (hd (RUN_KEY @ old @ a))"
    by (simp add: RUN_KEY_def isWhiteSpace_def)
  have s1: "takeWhile isWhiteSpace (u @ STEP_NAME @ w2 @ RUN_KEY @ old @ a) = u"
    "dropWhile isWhiteSpace (u @ STEP_NAME @ w2 @ RUN_KEY @ old @ a)
       = STEP_NAME @ w2 @ RUN_KEY @ old @ a"
    using span_all [OF u(2), of "STEP_NAME @ w2 @ RUN_KEY @ old @ a"] n by simp_all
  have s2: "takeWhile isWhiteSpace (w2 @ RUN_KEY @ old @ a) = w2"
    "dropWhile isWhiteSpace (w2 @ RUN_KEY @ old @ a) = RUN_KEY @ old @ a"
    using span_all [OF w2(2), of "RUN_KEY @ old @ a"] r by simp_all
  have s3: "takeWhile (\<lambda>c. \<not> isLineTerminator c) (old @ a) = old"
    "dropWhile (\<lambda>c. \<not> isLineTerminator c) (old @ a) = a"
    using span_all [of old "\<lambda>c. \<not> isLineTerminator c" a] old(2) a by simp_all
  show ?thesis
    unfolding installPatternAt_def Let_def s1 stripPrefix_append option.case s2 s3
    using u(1) w2(1) old(1) by simp
qed

text \<open>
  Conversely a match at the start of a text cuts it in that way: white space, the step
  name, white space, "run: ", a command that is not empty, holds no line terminator and
  runs to a line terminator or to the end.
\<close>

lemma installPatternAt_Some:
  assumes "installPatternAt s = Some (g1, g2, rest)"
  shows "\<exists>ws1 ws2. g1 = ws1 @ STEP_NAME @ ws2 @ RUN_KEY \<and> s = g1 @ g2 @ rest \<and>
           ws1 \<noteq> [] \<and> (\<forall>c\<in>set ws1. isWhiteSpace c) \<and>
           ws2 \<noteq> [] \<and> (\<forall>c\<in>set ws2. isWhiteSpace c) \<and>
           g2 \<noteq> [] \<and> (\<forall>c\<in>set g2. \<not> isLineTerminator c) \<and>
           (rest = [] \<or> isLineTerminator (hd rest))"
proof -
  define ws1 where "ws1 = takeWhile isWhiteSpace s"
  define r1 where "r1 = dropWhile isWhiteSpace s"
  from assms have ws1: "ws1 \<noteq> []"
    by (auto simp: installPatternAt_def Let_def ws1_def split: if_splits)
  from assms ws1 obtain r2 where r2: "stripPrefix STEP_NAME r1 = Some r2"
    by (auto simp: installPatternAt_def Let_def ws1_def r1_def split: if_splits option.splits)
  define ws2 where "ws2 = takeWhile isWhiteSpace r2"
  define r3 where "r3 = dropWhile isWhiteSpace r2"
  from assms ws1 r2 have ws2: "ws2 \<noteq> []"
    by (auto simp: installPatternAt_def Let_def ws1_def r1_def ws2_def split: if_splits)
  from assms ws1 r2 ws2 obtain r4 where r4: "stripPrefix RUN_KEY r3 = Some r4"
    by (auto simp: installPatternAt_def Let_def ws1_def r1_def ws2_def r3_def
        split: if_splits option.splits)
  from assms ws1 r2 ws2 r4 have g:
    "g1 = ws1 @ STEP_NAME @ ws2 @ RUN_KEY"
    "g2 = takeWhile (\<lambda>c. \<not> isLineTerminator c) r4"
    "rest = dropWhile (\<lambda>c. \<not> isLineTerminator c) r4" "g2 \<noteq> []"
    by (auto simp: installPatternAt_def Let_def ws1_def r1_def ws2_def r3_def
        split: if_splits)
  have s: "s = ws1 @ r1" by (simp add: ws1_def r1_def)
  from r2 have "r1 = STEP_NAME @ r2"
    by (auto simp: stripPrefix_def split: if_splits dest: startsWithD)
  moreover have "r2 = ws2 @ r3" by (simp add: ws2_def r3_def)
  moreover from r4 have "r3 = RUN_KEY @ r4"
    by (auto simp: stripPrefix_def split: if_splits dest: startsWithD)
  moreover have "r4 = g2 @ rest" by (simp add: g)
  ultimately have "s = g1 @ g2 @ rest" using s g(1) by simp
  moreover have "\<forall>c\<in>set ws1. isWhiteSpace c"
    unfolding ws1_def by (auto dest: set_takeWhileD)
  moreover have "\<forall>c\<in>set ws2. isWhiteSpace c"
    unfolding ws2_def by (auto dest: set_takeWhileD)
  moreover have "\<forall>c\<in>set g2. \<not> isLineTerminator c"
    unfolding g(2) by (auto dest: set_takeWhileD)
  moreover have "rest = [] \<or> isLineTerminator (hd rest)"
    unfolding g(3) using hd_dropWhile [of "\<lambda>c. \<not> isLineTerminator c" r4] by auto
  ultimately show ?thesis using g(1,4) ws1 ws2 by blast
qed

text \<open>
  The step text, spelled out: the step name, white space that is not empty, "run: " and
  a character that is not a line terminator.
\<close>

lemma stepTextAt_intro:
  assumes "w \<noteq> []" "\<forall>x\<in>set w. isWhiteSpace x" "\<not> isLineTerminator c"
  shows "stepTextAt (STEP_NAME @ w @ RUN_KEY @ c # r)"
proof -
  have n: "\<not> isWhiteSpace (hd (RUN_KEY @ c # r))"
    by (simp add: RUN_KEY_def isWhiteSpace_def)
  have s: "takeWhile isWhiteSpace (w @ RUN_KEY @ c # r) = w"
    "dropWhile isWhiteSpace (w @ RUN_KEY @ c # r) = RUN_KEY @ c # r"
    using span_all [OF assms(2), of "RUN_KEY @ c # r"] n by simp_all
  show ?thesis
    unfolding stepTextAt_def Let_def
    using assms(1,3) by (simp add: s startsWith_def)
qed

lemma stepTextAt_elim:
  assumes "stepTextAt s"
  shows "\<exists>w c r. s = STEP_NAME @ w @ RUN_KEY @ c # r \<and> w \<noteq> [] \<and>
           (\<forall>x\<in>set w. isWhiteSpace x) \<and> \<not> isLineTerminator c"
proof -
  define r2 where "r2 = drop (length STEP_NAME) s"
  define w where "w = takeWhile isWhiteSpace r2"
  define r3 where "r3 = dropWhile isWhiteSpace r2"
  define r4 where "r4 = drop (length RUN_KEY) r3"
  from assms have f: "startsWith s STEP_NAME" "w \<noteq> []" "startsWith r3 RUN_KEY"
    "r4 \<noteq> []" "\<not> isLineTerminator (hd r4)"
    unfolding stepTextAt_def Let_def r2_def w_def r3_def r4_def by simp_all
  from f(1) have "s = STEP_NAME @ r2" unfolding r2_def by (rule startsWithD)
  moreover have "r2 = w @ r3" by (simp add: w_def r3_def)
  moreover from f(3) have "r3 = RUN_KEY @ r4" unfolding r4_def by (rule startsWithD)
  moreover from f(4) have "r4 = hd r4 # tl r4" by simp
  ultimately have "s = STEP_NAME @ w @ RUN_KEY @ hd r4 # tl r4" by simp
  moreover have "\<forall>x\<in>set w. isWhiteSpace x"
    unfolding w_def by (auto dest: set_takeWhileD)
  ultimately show ?thesis using f(2,5) by blast
qed

text \<open>A match of the model's matcher is a match in the sense of \<open>patternAt\<close>.\<close>

lemma installPatternAt_patternAt:
  assumes "installPatternAt s \<noteq> None"
  shows "patternAt s (length (takeWhile isWhiteSpace s))"
proof -
  from assms obtain g1 g2 rest where "installPatternAt s = Some (g1, g2, rest)" by auto
  from installPatternAt_Some [OF this] obtain ws1 ws2 where
    m: "s = (ws1 @ STEP_NAME @ ws2 @ RUN_KEY) @ g2 @ rest"
      "ws1 \<noteq> []" "\<forall>c\<in>set ws1. isWhiteSpace c"
      "ws2 \<noteq> []" "\<forall>c\<in>set ws2. isWhiteSpace c"
      "g2 \<noteq> []" "\<forall>c\<in>set g2. \<not> isLineTerminator c" by blast
  define T where "T = STEP_NAME @ ws2 @ RUN_KEY @ g2 @ rest"
  have s: "s = ws1 @ T" using m(1) by (simp add: T_def)
  have n: "\<not> isWhiteSpace (hd T)" by (simp add: T_def STEP_NAME_def isWhiteSpace_def)
  have tw: "takeWhile isWhiteSpace s = ws1" and dw: "dropWhile isWhiteSpace s = T"
    unfolding s using span_all [OF m(3), of T] n by simp_all
  from m(6) obtain c g where g2: "g2 = c # g" by (cases g2) auto
  with m(7) have c: "\<not> isLineTerminator c" by simp
  have st: "stepTextAt T"
    unfolding T_def g2 using stepTextAt_intro [OF m(4,5) c, of "g @ rest"] by simp
  have T: "T \<noteq> []" by (simp add: T_def STEP_NAME_def)
  have "0 < length ws1" using m(2) by simp
  moreover have "length ws1 < length s" using T by (simp add: s)
  moreover have "isWhiteSpace (s ! (length ws1 - 1))"
  proof -
    have "s ! (length ws1 - 1) = ws1 ! (length ws1 - 1)"
      using m(2) by (simp add: s nth_append)
    also have "\<dots> = last ws1" using m(2) by (simp add: last_conv_nth)
    finally show ?thesis using m(2,3) by simp
  qed
  moreover have "stepTextAt (drop (length ws1) s)" using st by (simp add: s)
  ultimately show ?thesis unfolding tw patternAt_def by simp
qed

lemma patternAt_Cons: "patternAt s q \<Longrightarrow> patternAt (c # s) (Suc q)"
  by (auto simp: patternAt_def)

text \<open>
  The search, for a text in which white space, the step and its run line follow a prefix
  \<open>A\<close> and the pattern matches at no offset inside \<open>A\<close>: the leftmost match is the step.
\<close>

lemma installPatternSearch_first:
  assumes A: "A \<noteq> []" "isWhiteSpace (last A)"
    and first: "\<forall>q<length A. \<not> patternAt (A @ STEP_NAME @ w2 @ RUN_KEY @ old @ a) q"
    and w2: "w2 \<noteq> []" "\<forall>c\<in>set w2. isWhiteSpace c"
    and old: "old \<noteq> []" "\<forall>c\<in>set old. \<not> isLineTerminator c"
    and a: "a = [] \<or> isLineTerminator (hd a)"
  shows "\<exists>b g1. installPatternSearch (A @ STEP_NAME @ w2 @ RUN_KEY @ old @ a)
                  = Some (b, g1, old, a) \<and>
               b @ g1 = A @ STEP_NAME @ w2 @ RUN_KEY"
  using A first
proof (induction A)
  case Nil
  then show ?case by simp
next
  case (Cons c A)
  let ?T = "STEP_NAME @ w2 @ RUN_KEY @ old @ a"
  show ?case
  proof (cases "\<forall>x\<in>set (c # A). isWhiteSpace x")
    case True
    have u: "c # A \<noteq> []" by simp
    from installPatternAt_match [OF u True w2 old a]
    have "installPatternSearch ((c # A) @ ?T)
        = Some ([], (c # A) @ STEP_NAME @ w2 @ RUN_KEY, old, a)"
      by simp
    then show ?thesis by simp
  next
    case False
    have none: "installPatternAt ((c # A) @ ?T) = None"
    proof (rule ccontr)
      assume "installPatternAt ((c # A) @ ?T) \<noteq> None"
      then have "patternAt ((c # A) @ ?T) (length (takeWhile isWhiteSpace ((c # A) @ ?T)))"
        by (rule installPatternAt_patternAt)
      then have p: "patternAt ((c # A) @ ?T) (length (takeWhile isWhiteSpace (c # A)))"
        by (simp only: span_some(1) [OF False])
      have "length (takeWhile isWhiteSpace (c # A)) + length (dropWhile isWhiteSpace (c # A))
              = length (c # A)"
        by (simp only: length_append [symmetric] takeWhile_dropWhile_id)
      moreover have "dropWhile isWhiteSpace (c # A) \<noteq> []" by (rule span_some(3) [OF False])
      ultimately have "length (takeWhile isWhiteSpace (c # A)) < length (c # A)"
        by (cases "dropWhile isWhiteSpace (c # A)") auto
      with Cons.prems(3) p show False by blast
    qed
    from False Cons.prems(2) have ne: "A \<noteq> []" by auto
    with Cons.prems(2) have la: "isWhiteSpace (last A)" by simp
    have "\<forall>q<length A. \<not> patternAt (A @ ?T) q"
    proof (intro allI impI)
      fix q assume q: "q < length A"
      show "\<not> patternAt (A @ ?T) q"
      proof
        assume "patternAt (A @ ?T) q"
        then have "patternAt (c # A @ ?T) (Suc q)" by (rule patternAt_Cons)
        moreover from q have "Suc q < length (c # A)" by simp
        ultimately show False using Cons.prems(3) by auto
      qed
    qed
    from Cons.IH [OF ne la this] obtain b g1 where
      ih: "installPatternSearch (A @ ?T) = Some (b, g1, old, a)"
          "b @ g1 = A @ STEP_NAME @ w2 @ RUN_KEY" by blast
    have "installPatternSearch ((c # A) @ ?T) = Some (c # b, g1, old, a)"
      using none ih(1) by simp
    moreover have "(c # b) @ g1 = (c # A) @ STEP_NAME @ w2 @ RUN_KEY"
      using ih(2) by simp
    ultimately show ?thesis by blast
  qed
qed

text \<open>The search finds nothing in a text where the pattern matches at no offset.\<close>

lemma installPatternSearch_none:
  assumes "\<forall>q. \<not> patternAt s q"
  shows "installPatternSearch s = None"
  using assms
proof (induction s)
  case Nil
  then show ?case by simp
next
  case (Cons c s)
  have "installPatternAt (c # s) = None"
    using installPatternAt_patternAt [of "c # s"] Cons.prems by blast
  moreover have "\<forall>q. \<not> patternAt s q"
    using Cons.prems patternAt_Cons [of s _ c] by blast
  then have "installPatternSearch s = None" by (rule Cons.IH)
  ultimately show ?case by simp
qed


section \<open>deploy.yml: the fallback over the lines\<close>

lemma runPatternAt_match:
  assumes "old \<noteq> []" "\<forall>c\<in>set old. \<not> isLineTerminator c" "t2 = [] \<or> isLineTerminator (hd t2)"
  shows "runPatternAt (RUN_KEY @ old @ t2) = Some t2"
proof -
  have "takeWhile (\<lambda>c. \<not> isLineTerminator c) (old @ t2) = old"
    "dropWhile (\<lambda>c. \<not> isLineTerminator c) (old @ t2) = t2"
    using span_all [of old "\<lambda>c. \<not> isLineTerminator c" t2] assms(2,3) by simp_all
  then show ?thesis
    unfolding runPatternAt_def stripPrefix_append using assms(1) by simp
qed

lemma runPatternAt_white: "isWhiteSpace c \<Longrightarrow> runPatternAt (c # s) = None"
  by (auto simp: runPatternAt_def stripPrefix_def startsWith_def RUN_KEY_def isWhiteSpace_def)

text \<open>The replacement in a run line: indentation, "run: " and a command to the end of the line.\<close>

lemma replaceRun_line:
  assumes ind: "\<forall>c\<in>set indent2. isWhiteSpace c"
    and old: "old \<noteq> []" "\<forall>c\<in>set old. \<not> isLineTerminator c"
    and t2: "t2 = [] \<or> isLineTerminator (hd t2)"
  shows "replaceRun cmd (indent2 @ RUN_KEY @ old @ t2) = indent2 @ RUN_KEY @ cmd @ t2"
  using ind
proof (induction indent2)
  case Nil
  obtain c cs where l: "RUN_KEY @ old @ t2 = c # cs" by (simp add: RUN_KEY_def)
  have "runPatternAt (c # cs) = Some t2"
    unfolding l [symmetric] by (rule runPatternAt_match [OF old t2])
  then have "replaceRun cmd (c # cs) = RUN_KEY @ cmd @ t2" by simp
  then show ?case unfolding l [symmetric] by simp
next
  case (Cons c indent2)
  then have "runPatternAt (c # indent2 @ RUN_KEY @ old @ t2) = None"
    by (simp add: runPatternAt_white)
  with Cons show ?case by simp
qed

lemma js_includes_run_line: "js_includes (indent2 @ RUN_KEY @ old) ''run:''"
proof -
  have "indent2 @ RUN_KEY @ old = indent2 @ ''run:'' @ ('' '' @ old)"
    by (simp add: RUN_KEY_def)
  then show ?thesis by (simp only: js_includes_append)
qed

text \<open>
  The loop rewrites the line after the first pair of lines that it looks for, and leaves
  the lines as they are when there is no such pair.
\<close>

lemma fallbackLoop_first:
  assumes "\<forall>i<length pre. \<not> linePairAt (pre @ l # m # post) i"
    and "js_includes l ''Install dependencies''" "js_includes m ''run:''"
  shows "fallbackLoop cmd (pre @ l # m # post) = pre @ l # replaceRun cmd m # post"
  using assms(1)
proof (induction pre)
  case Nil
  from assms(2,3) show ?case by simp
next
  case (Cons p pre)
  obtain x xs where r: "pre @ l # m # post = x # xs" by (cases pre) auto
  from Cons.prems have "\<not> linePairAt (p # pre @ l # m # post) 0" by auto
  then have n: "\<not> (js_includes p ''Install dependencies'' \<and> js_includes x ''run:'')"
    unfolding r by (simp add: linePairAt_def)
  have "\<forall>i<length pre. \<not> linePairAt (pre @ l # m # post) i"
  proof (intro allI impI)
    fix i assume "i < length pre"
    then have "\<not> linePairAt ((p # pre) @ l # m # post) (Suc i)" using Cons.prems by auto
    then show "\<not> linePairAt (pre @ l # m # post) i" by (simp add: linePairAt_def)
  qed
  then have ih: "fallbackLoop cmd (pre @ l # m # post) = pre @ l # replaceRun cmd m # post"
    by (rule Cons.IH)
  have "fallbackLoop cmd (p # x # xs) = p # fallbackLoop cmd (x # xs)"
    using n by auto
  then show ?case unfolding r [symmetric] ih by simp
qed

lemma fallbackLoop_none:
  assumes "\<forall>i. \<not> linePairAt ls i"
  shows "fallbackLoop cmd ls = ls"
  using assms
proof (induction cmd ls rule: fallbackLoop.induct)
  case (1 cmd l m ls)
  from "1.prems" have "\<not> linePairAt (l # m # ls) 0" by blast
  then have n: "\<not> (js_includes l ''Install dependencies'' \<and> js_includes m ''run:'')"
    by (simp add: linePairAt_def)
  have "\<forall>i. \<not> linePairAt (m # ls) i"
  proof
    fix i
    from "1.prems" have "\<not> linePairAt (l # m # ls) (Suc i)" by blast
    then show "\<not> linePairAt (m # ls) i" by (simp add: linePairAt_def)
  qed
  with "1.IH" n have "fallbackLoop cmd (m # ls) = m # ls" by auto
  with n show ?case by auto
qed simp_all


section \<open>deploy.yml: the text of a document given by its lines\<close>

text \<open>Blank lines, each with the newline that ends it.\<close>

lemma js_join_blanks:
  "js_join NL (blanks @ m # post) = concat (map (\<lambda>b. b @ NL) blanks) @ js_join NL (m # post)"
  by (induction blanks) (simp_all add: js_join_Cons)

text \<open>
  The text of a document whose lines are given, cut before the step name and around the
  command of the run line.
\<close>

lemma step_document_text:
  "js_join NL (pre @ [x @ STEP_NAME @ t1] @ blanks @ [indent2 @ RUN_KEY @ cmd @ t2] @ post)
     = js_join NL (pre @ [x]) @ STEP_NAME @
       (t1 @ NL @ concat (map (\<lambda>b. b @ NL) blanks) @ indent2) @ RUN_KEY @ cmd @
       (t2 @ (if post = [] then [] else NL @ js_join NL post))"
proof -
  have "js_join NL (pre @ (x @ STEP_NAME @ t1) # (blanks @ (indent2 @ RUN_KEY @ cmd @ t2) # post))
     = (if pre = [] then [] else js_join NL pre @ NL) @ (x @ STEP_NAME @ t1) @
       (NL @ js_join NL (blanks @ (indent2 @ RUN_KEY @ cmd @ t2) # post))"
    by (simp only: js_join_middle) simp
  moreover have "js_join NL (pre @ [x]) = (if pre = [] then [] else js_join NL pre @ NL) @ x"
    by (simp add: js_join_snoc)
  ultimately show ?thesis
    by (simp add: js_join_blanks js_join_Cons)
qed


section \<open>deploy.yml: checking a concrete document\<close>

text \<open>
  The three conditions on a document, in a form that can be run: over the offsets of its
  text and over the indices of its lines.
\<close>

lemma all_below_list_all: "(\<forall>q<n. P q) \<longleftrightarrow> list_all P [0..<n]"
  by (auto simp: list_all_iff)

lemma patternAt_nowhere:
  "(\<forall>q. \<not> patternAt s q) \<longleftrightarrow> list_all (\<lambda>q. \<not> patternAt s q) [0..<length s]"
  by (auto simp: list_all_iff patternAt_def)

lemma linePairAt_nowhere:
  "(\<forall>i. \<not> linePairAt ls i) \<longleftrightarrow> list_all (\<lambda>i. \<not> linePairAt ls i) [0..<length ls]"
  by (auto simp: list_all_iff linePairAt_def)

section \<open>The .env step: creation, frame and final newline\<close>

text \<open>
  C8. When there is no .env file, the env step run with name "demo" and description
  "desc" writes exactly the VITE_TITLE line, then the VITE_DESCRIPTION line, then one
  newline, and nothing before the first key.
\<close>

theorem updateEnv_creates_file:
  "updateEnv ''demo'' ''desc'' None =
     ''VITE_TITLE=demo\<newline>VITE_DESCRIPTION=desc\<newline>''"
  by (simp add: updateEnv_def writeEnvFile_def writeEnvLines_def readEnvFile_def
      envValue_def ENV_TITLE_def ENV_DESCRIPTION_def isEnvVarLine_def js_trim_def
      startsWith_def endsWith_def addMissingEnvVars_def fileContent_def envLine_def
      removeTrailingEmptyLines_single_empty js_split_run del: js_split.simps)

lemma split_line_last:
  "l \<in> set (js_split (CHR 0x0A) c) \<Longrightarrow> l \<noteq> [] \<Longrightarrow> last l \<noteq> CHR 0x0A"
proof
  assume a: "l \<in> set (js_split (CHR 0x0A) c)" "l \<noteq> []" "last l = CHR 0x0A"
  from a(2) have "last l \<in> set l" by (rule last_in_set)
  with a(3) js_split_no_sep [OF a(1)] show False by simp
qed

lemma update_keeps_ending:
  assumes i: "i < length ls"
    and old: "ls ! i \<noteq> []" "last (ls ! i) \<noteq> CHR 0x0A"
    and new: "y \<noteq> []" "last y \<noteq> CHR 0x0A"
  shows "endsWith (js_join NL (ls[i := y])) NL = endsWith (js_join NL ls) NL"
    and "endsWith (js_join NL (ls[i := y])) NLNL = endsWith (js_join NL ls) NLNL"
    and "js_join NL (ls[i := y]) \<noteq> []"
proof -
  let ?A = "take i ls" and ?B = "drop (Suc i) ls"
  let ?p = "if ?A = [] then [] else js_join NL ?A @ NL"
  let ?q = "if ?B = [] then [] else NL @ js_join NL ?B"
  have "ls = ?A @ ls ! i # ?B" using i by (rule id_take_nth_drop)
  then have "js_join NL ls = js_join NL (?A @ ls ! i # ?B)" by simp
  then have o: "js_join NL ls = ?p @ ls ! i @ ?q"
    by (simp only: js_join_middle)
  have "ls[i := y] = ?A @ y # ?B" using i by (rule upd_conv_take_nth_drop)
  then have n: "js_join NL (ls[i := y]) = ?p @ y @ ?q"
    by (simp only: js_join_middle)
  show "endsWith (js_join NL (ls[i := y])) NL = endsWith (js_join NL ls) NL"
    unfolding o n by (rule replace_middle_NL [OF new(1) old(1) new(2) old(2)])
  show "endsWith (js_join NL (ls[i := y])) NLNL = endsWith (js_join NL ls) NLNL"
    unfolding o n by (rule replace_middle_NLNL [OF new(1) old(1) new(2) old(2)])
  show "js_join NL (ls[i := y]) \<noteq> []"
    unfolding n using new(1) by simp
qed

lemma appended_ending:
  assumes "added \<noteq> []" "last added \<noteq> []" "last (last added) \<noteq> CHR 0x0A"
  shows "js_join NL (pre @ added) \<noteq> []"
    and "\<not> endsWith (js_join NL (pre @ added)) NL"
proof -
  have "pre @ added = (pre @ butlast added) @ [last added]"
    using assms(1) by simp
  then have j: "js_join NL (pre @ added) = js_join NL ((pre @ butlast added) @ [last added])"
    by simp
  show "js_join NL (pre @ added) \<noteq> []"
    unfolding j js_join_snoc using assms(2) by simp
  have "last (js_join NL (pre @ added)) = last (last added)"
    unfolding j js_join_snoc using assms(2) by simp
  with assms(3) show "\<not> endsWith (js_join NL (pre @ added)) NL"
    by (simp add: endsWith_NL)
qed

lemma final_newline:
  "c \<noteq> [] \<Longrightarrow> endsWith (c @ (if c \<noteq> [] \<and> \<not> endsWith c NL then NL else [])) NL"
  by (auto simp: endsWith_NL)

lemma final_newline_twice:
  "endsWith (c @ (if c \<noteq> [] \<and> \<not> endsWith c NL then NL else [])) NLNL
     = endsWith c NLNL"
proof (cases "c \<noteq> [] \<and> \<not> endsWith c NL")
  case False
  then show ?thesis by auto
next
  case True
  then obtain c' a where c: "c = c' @ [a]" "a \<noteq> CHR 0x0A"
    by (cases c rule: rev_cases) (auto simp: endsWith_NL)
  then show ?thesis by (simp add: endsWith_def startsWith_def)
qed

lemma joined_lines_ending:
  assumes tv: "\<not> endsWith (envValue env ENV_TITLE) NL"
    and dv: "\<not> endsWith (envValue env ENV_DESCRIPTION) NL"
  shows "js_join NL (writeEnvLines env file) \<noteq> []"
    and "endsWith (js_join NL (writeEnvLines env file)) NLNL \<longleftrightarrow>
           hasEnvVar (js_split (CHR 0x0A) (fileContent file)) ENV_TITLE \<and>
           hasEnvVar (js_split (CHR 0x0A) (fileContent file)) ENV_DESCRIPTION \<and>
           endsWith (fileContent file) NLNL"
    and "endsWith (js_join NL (writeEnvLines env file)) NL \<longleftrightarrow>
           hasEnvVar (js_split (CHR 0x0A) (fileContent file)) ENV_TITLE \<and>
           hasEnvVar (js_split (CHR 0x0A) (fileContent file)) ENV_DESCRIPTION \<and>
           endsWith (fileContent file) NL"
proof -
  define ls where "ls = js_split (CHR 0x0A) (fileContent file)"
  define t where "t = envLine ENV_TITLE (envValue env ENV_TITLE)"
  define d where "d = envLine ENV_DESCRIPTION (envValue env ENV_DESCRIPTION)"
  define iT where "iT = firstEnvVar ls ENV_TITLE"
  define iD where "iD = firstEnvVar ls ENV_DESCRIPTION"
  define k where "k = keptLength ls"
  define added where "added = addedLines env ls"
  define content where "content = js_join NL (writeEnvLines env file)"
  have out: "content = js_join NL (take k (ls[iT := t, iD := d])
                 @ (if added = [] \<or> k = 0 then [] else [[]]) @ added)"
    unfolding content_def writeEnvLines_structure [of env "file"]
      ls_def t_def d_def iT_def iD_def k_def added_def ..
  have t: "t \<noteq> []" "last t \<noteq> CHR 0x0A"
    unfolding t_def using envLine_not_Nil envLine_last [OF tv] by auto
  have d: "d \<noteq> []" "last d \<noteq> CHR 0x0A"
    unfolding d_def using envLine_not_Nil envLine_last [OF dv] by auto
  have cjoin: "js_join NL ls = fileContent file"
    unfolding ls_def by (rule js_join_split)
  have "content \<noteq> [] \<and>
     (endsWith content NLNL \<longleftrightarrow>
        hasEnvVar ls ENV_TITLE \<and> hasEnvVar ls ENV_DESCRIPTION \<and> endsWith (fileContent file) NLNL) \<and>
     (endsWith content NL \<longleftrightarrow>
        hasEnvVar ls ENV_TITLE \<and> hasEnvVar ls ENV_DESCRIPTION \<and> endsWith (fileContent file) NL)"
  proof (cases "hasEnvVar ls ENV_TITLE \<and> hasEnvVar ls ENV_DESCRIPTION")
    case True
    then have a: "added = []" and k: "k = length ls"
      by (simp_all add: added_def addedLines_def k_def keptLength_def)
    from True have iT: "iT < length ls" and iD: "iD < length ls"
      by (simp_all add: iT_def iD_def hasEnvVar_first)
    have content: "content = js_join NL (ls[iT := t, iD := d])"
      by (simp add: out a k)
    have l0: "last (ls ! i) \<noteq> CHR 0x0A" if "i < length ls" "ls ! i \<noteq> []" for i
    proof -
      from that(1) have "ls ! i \<in> set (js_split (CHR 0x0A) (fileContent file))"
        unfolding ls_def by (rule nth_mem)
      then show ?thesis using that(2) by (rule split_line_last)
    qed
    have oT: "ls ! iT \<noteq> []"
      using firstEnvVar_is [of ls ENV_TITLE] iT isEnvVarLine_nonempty unfolding iT_def by blast
    have oD: "ls ! iD \<noteq> []"
      using firstEnvVar_is [of ls ENV_DESCRIPTION] iD isEnvVarLine_nonempty
      unfolding iD_def by blast
    note s1 = update_keeps_ending [OF iT oT l0 [OF iT oT] t]
    have iD1: "iD < length (ls[iT := t])" using iD by simp
    have o1: "ls[iT := t] ! iD \<noteq> []" and o1': "last (ls[iT := t] ! iD) \<noteq> CHR 0x0A"
      using t oD l0 [OF iD oD] iT by (simp_all add: nth_list_update)
    note s2 = update_keeps_ending [OF iD1 o1 o1' d]
    have "endsWith content NLNL = endsWith (js_join NL ls) NLNL"
      unfolding content by (simp only: s1(2) s2(2))
    moreover have "endsWith content NL = endsWith (js_join NL ls) NL"
      unfolding content by (simp only: s1(1) s2(1))
    moreover have "content \<noteq> []" unfolding content by (rule s2(3))
    ultimately show ?thesis using True cjoin by simp
  next
    case False
    then have a: "added \<noteq> []"
      by (auto simp: added_def addedLines_def)
    have "last added = t \<or> last added = d"
      using a by (auto simp: added_def addedLines_def t_def d_def split: if_splits)
    with t d have la: "last added \<noteq> []" "last (last added) \<noteq> CHR 0x0A" by auto
    note e = appended_ending [OF a la,
        of "take k (ls[iT := t, iD := d]) @ (if added = [] \<or> k = 0 then [] else [[]])"]
    have ne: "content \<noteq> []" unfolding out using e(1) by simp
    have n1: "\<not> endsWith content NL" unfolding out using e(2) by simp
    with endsWith_NLNL_NL [of content] have "\<not> endsWith content NLNL" by blast
    with ne n1 False show ?thesis by blast
  qed
  then show "js_join NL (writeEnvLines env file) \<noteq> []"
    and "endsWith (js_join NL (writeEnvLines env file)) NLNL \<longleftrightarrow>
           hasEnvVar (js_split (CHR 0x0A) (fileContent file)) ENV_TITLE \<and>
           hasEnvVar (js_split (CHR 0x0A) (fileContent file)) ENV_DESCRIPTION \<and>
           endsWith (fileContent file) NLNL"
    and "endsWith (js_join NL (writeEnvLines env file)) NL \<longleftrightarrow>
           hasEnvVar (js_split (CHR 0x0A) (fileContent file)) ENV_TITLE \<and>
           hasEnvVar (js_split (CHR 0x0A) (fileContent file)) ENV_DESCRIPTION \<and>
           endsWith (fileContent file) NL"
    unfolding content_def ls_def by blast+
qed

text \<open>
  C9, as the code has it. Provided neither value ends in a newline, the content written
  by \<^verbatim>\<open>writeEnvFile\<close> always ends with a newline, and it ends with two newlines
  exactly when both keys are already assigned in the file (nothing is appended) and the
  original content ended with two newlines. So the written content ends with exactly one
  newline whenever a key is appended, or the original did not end with a blank line.
\<close>

theorem writeEnvFile_trailing_newline:
  assumes "\<not> endsWith (envValue env ENV_TITLE) NL"
    and "\<not> endsWith (envValue env ENV_DESCRIPTION) NL"
  shows "endsWith (writeEnvFile env file) NL \<and>
         (endsWith (writeEnvFile env file) NLNL \<longleftrightarrow>
            hasEnvVar (js_split (CHR 0x0A) (fileContent file)) ENV_TITLE \<and>
            hasEnvVar (js_split (CHR 0x0A) (fileContent file)) ENV_DESCRIPTION \<and>
            endsWith (fileContent file) NLNL)"
proof -
  define content where "content = js_join NL (writeEnvLines env file)"
  have out: "writeEnvFile env file =
      content @ (if content \<noteq> [] \<and> \<not> endsWith content NL then NL else [])"
    by (simp add: writeEnvFile_def Let_def content_def)
  note j = joined_lines_ending [OF assms, of "file", folded content_def]
  have e1: "endsWith (writeEnvFile env file) NL"
    unfolding out by (rule final_newline [OF j(1)])
  have e2: "endsWith (writeEnvFile env file) NLNL = endsWith content NLNL"
    unfolding out by (rule final_newline_twice)
  from e1 e2 j(2) show ?thesis by blast
qed


text \<open>
  Rules that let the simplifier run the .env step on a concrete file.
\<close>

lemmas env_eval =
  updateEnv_def writeEnvFile_def writeEnvLines_def readEnvFile_def parseEnvLine_def
  envValue_def ENV_TITLE_def ENV_DESCRIPTION_def isEnvVarLine_def js_trim_def
  startsWith_def endsWith_def addMissingEnvVars_def fileContent_def envLine_def
  removeTrailingEmptyLines_eq isWhiteSpace_def hasEnvVar_def keptLength_def
  addedLines_def firstEnvVar_def Let_def js_split_run

theorem writeEnvFile_trailing_newline_witness:
  "(\<not> endsWith (envValue [ENV_TITLE \<mapsto> ''demo'', ENV_DESCRIPTION \<mapsto> ''desc''] ENV_TITLE) NL \<and>
    \<not> endsWith (envValue [ENV_TITLE \<mapsto> ''demo'', ENV_DESCRIPTION \<mapsto> ''desc''] ENV_DESCRIPTION) NL) \<and>
   endsWith (writeEnvFile [ENV_TITLE \<mapsto> ''demo'', ENV_DESCRIPTION \<mapsto> ''desc'']
               (Some ''A=1\<newline>\<newline>\<newline>'')) NL \<and>
   \<not> endsWith (writeEnvFile [ENV_TITLE \<mapsto> ''demo'', ENV_DESCRIPTION \<mapsto> ''desc'']
               (Some ''A=1\<newline>\<newline>\<newline>'')) NLNL"
proof -
  let ?env = "[ENV_TITLE \<mapsto> ''demo'', ENV_DESCRIPTION \<mapsto> ''desc'']"
  have t: "\<not> endsWith (envValue ?env ENV_TITLE) NL"
    by (simp add: env_eval del: js_split.simps)
  have d: "\<not> endsWith (envValue ?env ENV_DESCRIPTION) NL"
    by (simp add: env_eval del: js_split.simps)
  have h: "\<not> hasEnvVar (js_split (CHR 0x0A) (fileContent (Some ''A=1\<newline>\<newline>\<newline>''))) ENV_TITLE"
    by (simp add: env_eval del: js_split.simps)
  from writeEnvFile_trailing_newline [OF t d, of "Some ''A=1\<newline>\<newline>\<newline>''"] t d h
  show ?thesis by blast
qed

text \<open>
  C9 as stated fails: with both keys already assigned and a file that ends with a blank
  line, both lines are overwritten in place, nothing is trimmed, and the written content
  still ends with two newlines.
\<close>

theorem writeEnvFile_keeps_blank_end:
  "updateEnv ''demo'' ''desc'' (Some ''VITE_TITLE=a\<newline>VITE_DESCRIPTION=b\<newline>\<newline>'')
     = ''VITE_TITLE=demo\<newline>VITE_DESCRIPTION=desc\<newline>\<newline>''"
  by (simp add: env_eval del: js_split.simps)


section \<open>The .env step: the lines of the written file\<close>

lemma envLine_no_NL:
  assumes "CHR 0x0A \<notin> set v"
  shows "CHR 0x0A \<notin> set (envLine ENV_TITLE v)" and "CHR 0x0A \<notin> set (envLine ENV_DESCRIPTION v)"
  using assms by (simp_all add: envLine_def ENV_TITLE_def ENV_DESCRIPTION_def)

lemma no_NL_not_endsWith: "CHR 0x0A \<notin> set v \<Longrightarrow> \<not> endsWith v NL"
  by (metis endsWith_NL last_in_set)

text \<open>No line that \<^verbatim>\<open>writeEnvFile\<close> joins holds a newline, when neither value does.\<close>

lemma writeEnvLines_no_NL:
  assumes tv: "CHR 0x0A \<notin> set (envValue env ENV_TITLE)"
    and dv: "CHR 0x0A \<notin> set (envValue env ENV_DESCRIPTION)"
    and l: "l \<in> set (writeEnvLines env file)"
  shows "CHR 0x0A \<notin> set l"
proof -
  define ls where "ls = js_split (CHR 0x0A) (fileContent file)"
  define t where "t = envLine ENV_TITLE (envValue env ENV_TITLE)"
  define d where "d = envLine ENV_DESCRIPTION (envValue env ENV_DESCRIPTION)"
  define k where "k = keptLength ls"
  have out: "writeEnvLines env file =
      take k (ls[firstEnvVar ls ENV_TITLE := t, firstEnvVar ls ENV_DESCRIPTION := d])
      @ (if addedLines env ls = [] \<or> k = 0 then [] else [[]]) @ addedLines env ls"
    unfolding writeEnvLines_structure [of env "file"] ls_def t_def d_def k_def ..
  have t: "CHR 0x0A \<notin> set t" unfolding t_def using tv by (rule envLine_no_NL)
  have d: "CHR 0x0A \<notin> set d" unfolding d_def using dv by (rule envLine_no_NL)
  have a: "set (addedLines env ls) \<subseteq> {t, d}"
    by (auto simp: addedLines_def t_def d_def)
  have "set (ls[firstEnvVar ls ENV_TITLE := t, firstEnvVar ls ENV_DESCRIPTION := d])
          \<subseteq> insert d (insert t (set ls))"
    using set_update_subset_insert [of "ls[firstEnvVar ls ENV_TITLE := t]"
        "firstEnvVar ls ENV_DESCRIPTION" d]
      set_update_subset_insert [of ls "firstEnvVar ls ENV_TITLE" t] by auto
  moreover have "set (take k xs) \<subseteq> set xs" for xs :: "string list"
    by (rule set_take_subset)
  ultimately have u: "set (take k (ls[firstEnvVar ls ENV_TITLE := t,
                                    firstEnvVar ls ENV_DESCRIPTION := d]))
          \<subseteq> insert d (insert t (set ls))" by blast
  from l have "l \<in> set ls \<or> l = t \<or> l = d \<or> l = []"
    unfolding out using u a by (auto split: if_splits)
  moreover have "CHR 0x0A \<notin> set l" if "l \<in> set ls"
    using that unfolding ls_def by (rule js_split_no_sep)
  ultimately show ?thesis using t d by auto
qed

text \<open>
  The lines of the written file: the lines that were joined, and one more empty line
  unless both keys were assigned already and the original content ended with a newline.
\<close>

lemma written_lines:
  assumes tv: "CHR 0x0A \<notin> set (envValue env ENV_TITLE)"
    and dv: "CHR 0x0A \<notin> set (envValue env ENV_DESCRIPTION)"
  shows "js_split (CHR 0x0A) (writeEnvFile env file) =
           writeEnvLines env file @
           (if addedLines env (js_split (CHR 0x0A) (fileContent file)) = [] \<and>
               endsWith (fileContent file) NL then [] else [[]])"
proof -
  define out where "out = writeEnvLines env file"
  define ls where "ls = js_split (CHR 0x0A) (fileContent file)"
  have ne: "out \<noteq> []"
    using writeEnvLines_joined_not_Nil [of env "file"] unfolding out_def by auto
  have nl: "\<forall>l\<in>set out. CHR 0x0A \<notin> set l"
    unfolding out_def using writeEnvLines_no_NL [OF tv dv] by blast
  have both: "addedLines env ls = [] \<longleftrightarrow> hasEnvVar ls ENV_TITLE \<and> hasEnvVar ls ENV_DESCRIPTION"
    by (simp add: addedLines_def)
  have "endsWith (js_join NL out) NL \<longleftrightarrow>
          hasEnvVar ls ENV_TITLE \<and> hasEnvVar ls ENV_DESCRIPTION \<and> endsWith (fileContent file) NL"
    unfolding out_def ls_def
    by (rule joined_lines_ending(3) [OF no_NL_not_endsWith [OF tv] no_NL_not_endsWith [OF dv]])
  with both have e: "endsWith (js_join NL out) NL \<longleftrightarrow>
      addedLines env ls = [] \<and> endsWith (fileContent file) NL" by simp
  have w: "writeEnvFile env file = js_join NL out @ (if endsWith (js_join NL out) NL then [] else NL)"
    unfolding out_def by (rule writeEnvFile_joined)
  show ?thesis
  proof (cases "endsWith (js_join NL out) NL")
    case True
    then have "js_split (CHR 0x0A) (writeEnvFile env file) = out"
      unfolding w using js_split_join [OF ne nl] by simp
    with True e show ?thesis unfolding out_def ls_def by simp
  next
    case False
    have "js_join NL out @ NL = js_join NL (out @ [[]])"
      using ne by (simp add: js_join_snoc)
    moreover have "js_split (CHR 0x0A) (js_join NL (out @ [[]])) = out @ [[]]"
      by (rule js_split_join) (use nl in auto)
    ultimately have "js_split (CHR 0x0A) (writeEnvFile env file) = out @ [[]]"
      unfolding w using False by simp
    with False e show ?thesis unfolding out_def ls_def by auto
  qed
qed

lemma removeTrailingEmptyLines_last:
  assumes "removeTrailingEmptyLines ls \<noteq> []"
  shows "js_trim (last (removeTrailingEmptyLines ls)) \<noteq> []"
proof -
  let ?P = "\<lambda>l. js_trim l = []"
  from assms have ne: "dropWhile ?P (rev ls) \<noteq> []"
    by (simp add: removeTrailingEmptyLines_eq)
  then have "\<not> ?P (hd (dropWhile ?P (rev ls)))" by (rule hd_dropWhile)
  moreover have "last (removeTrailingEmptyLines ls) = hd (dropWhile ?P (rev ls))"
    using ne by (simp add: removeTrailingEmptyLines_eq last_rev)
  ultimately show ?thesis by simp
qed

text \<open>
  C1, as the code has it. Take values for the two keys that hold no newline; write
  \<open>ls\<close> for the lines of the original file, \<open>written\<close> for the lines of the file that
  \<^verbatim>\<open>writeEnvFile\<close> writes, and \<open>k\<close> for the number of original lines that are kept.
  When both keys are assigned in the file, \<open>k\<close> is the number of its lines; otherwise
  the lines from \<open>k\<close> on are all blank and line \<open>k - 1\<close>, if there is one, is not: the
  blank lines at the end are dropped. The written lines are the first \<open>k\<close> lines, with
  the first assignment of VITE_TITLE and the first assignment of VITE_DESCRIPTION
  overwritten, then one empty line if something is appended after something, then the
  assignments of the keys that were absent, VITE_TITLE first, then the empty line that
  stands for the final newline, unless nothing was appended and the original content
  ended with a newline already. Every one of the first \<open>k\<close> lines that assigns neither
  key is unchanged, at its index, in the written file.
\<close>

theorem writeEnvFile_frame:
  assumes "CHR 0x0A \<notin> set (envValue env ENV_TITLE)"
    and "CHR 0x0A \<notin> set (envValue env ENV_DESCRIPTION)"
  shows
  "let ls = js_split (CHR 0x0A) (fileContent file);
       written = js_split (CHR 0x0A) (writeEnvFile env file);
       k = keptLength ls
   in written =
        take k (ls[firstEnvVar ls ENV_TITLE := envLine ENV_TITLE (envValue env ENV_TITLE),
                   firstEnvVar ls ENV_DESCRIPTION :=
                     envLine ENV_DESCRIPTION (envValue env ENV_DESCRIPTION)])
        @ (if addedLines env ls = [] \<or> k = 0 then [] else [[]])
        @ addedLines env ls
        @ (if addedLines env ls = [] \<and> endsWith (fileContent file) NL then [] else [[]])
      \<and> (\<forall>i<k. \<not> isEnvVarLine (ls ! i) ENV_TITLE \<and> \<not> isEnvVarLine (ls ! i) ENV_DESCRIPTION
                 \<longrightarrow> written ! i = ls ! i)
      \<and> k \<le> length ls
      \<and> (hasEnvVar ls ENV_TITLE \<and> hasEnvVar ls ENV_DESCRIPTION \<longrightarrow> k = length ls)
      \<and> (\<forall>i<length ls. k \<le> i \<longrightarrow> js_trim (ls ! i) = [])
      \<and> (\<not> (hasEnvVar ls ENV_TITLE \<and> hasEnvVar ls ENV_DESCRIPTION) \<longrightarrow> 0 < k \<longrightarrow>
            js_trim (ls ! (k - 1)) \<noteq> [])"
proof -
  define ls where "ls = js_split (CHR 0x0A) (fileContent file)"
  define written where "written = js_split (CHR 0x0A) (writeEnvFile env file)"
  define k where "k = keptLength ls"
  define ls2 where "ls2 = ls[firstEnvVar ls ENV_TITLE := envLine ENV_TITLE (envValue env ENV_TITLE),
                       firstEnvVar ls ENV_DESCRIPTION :=
                         envLine ENV_DESCRIPTION (envValue env ENV_DESCRIPTION)]"
  define tl where "tl = (if addedLines env ls = [] \<or> k = 0 then [] else [[]]) @ addedLines env ls
     @ (if addedLines env ls = [] \<and> endsWith (fileContent file) NL then [] else [[]])"
  have struct: "written = take k ls2 @ tl"
    unfolding written_def written_lines [OF assms, of "file"]
      writeEnvLines_structure [of env "file"] ls2_def k_def ls_def tl_def
    by simp
  have len2: "length ls2 = length ls" by (simp add: ls2_def)
  have kle: "k \<le> length ls" unfolding k_def by (rule keptLength_le)
  have frame: "\<forall>i<k. \<not> isEnvVarLine (ls ! i) ENV_TITLE \<and> \<not> isEnvVarLine (ls ! i) ENV_DESCRIPTION
                 \<longrightarrow> written ! i = ls ! i"
  proof (intro allI impI)
    fix i
    assume i: "i < k"
      and n: "\<not> isEnvVarLine (ls ! i) ENV_TITLE \<and> \<not> isEnvVarLine (ls ! i) ENV_DESCRIPTION"
    from i kle have il: "i < length ls" by simp
    have "i \<noteq> firstEnvVar ls ENV_TITLE"
      using firstEnvVar_is [of ls ENV_TITLE] il n by auto
    moreover have "i \<noteq> firstEnvVar ls ENV_DESCRIPTION"
      using firstEnvVar_is [of ls ENV_DESCRIPTION] il n by auto
    ultimately have "ls2 ! i = ls ! i" by (simp add: ls2_def)
    moreover from i il len2 have "written ! i = ls2 ! i"
      by (simp add: struct nth_append)
    ultimately show "written ! i = ls ! i" by simp
  qed
  have full: "hasEnvVar ls ENV_TITLE \<and> hasEnvVar ls ENV_DESCRIPTION \<longrightarrow> k = length ls"
    by (simp add: k_def keptLength_def)
  have dropped: "\<forall>i<length ls. k \<le> i \<longrightarrow> js_trim (ls ! i) = []"
  proof (intro allI impI)
    fix i assume i: "i < length ls" "k \<le> i"
    then have "k \<noteq> length ls" by simp
    then have "k = length (removeTrailingEmptyLines ls)"
      by (simp add: k_def keptLength_def split: if_splits)
    with i show "js_trim (ls ! i) = []"
      using removeTrailingEmptyLines_dropped_blank [of ls i] by simp
  qed
  have kept: "\<not> (hasEnvVar ls ENV_TITLE \<and> hasEnvVar ls ENV_DESCRIPTION) \<longrightarrow> 0 < k \<longrightarrow>
            js_trim (ls ! (k - 1)) \<noteq> []"
  proof (intro impI)
    assume "\<not> (hasEnvVar ls ENV_TITLE \<and> hasEnvVar ls ENV_DESCRIPTION)" and z: "0 < k"
    then have k: "k = length (removeTrailingEmptyLines ls)"
      by (auto simp: k_def keptLength_def)
    with z have ne: "removeTrailingEmptyLines ls \<noteq> []" by auto
    then have "js_trim (last (removeTrailingEmptyLines ls)) \<noteq> []"
      by (rule removeTrailingEmptyLines_last)
    moreover have "last (removeTrailingEmptyLines ls) = ls ! (k - 1)"
    proof -
      have "last (removeTrailingEmptyLines ls) = removeTrailingEmptyLines ls ! (k - 1)"
        using ne k by (simp add: last_conv_nth)
      also have "\<dots> = take k ls ! (k - 1)"
        using removeTrailingEmptyLines_take [of ls] k by simp
      also have "\<dots> = ls ! (k - 1)" using z by simp
      finally show ?thesis .
    qed
    ultimately show "js_trim (ls ! (k - 1)) \<noteq> []" by simp
  qed
  from struct frame kle full dropped kept show ?thesis
    unfolding Let_def ls2_def tl_def k_def written_def ls_def by simp
qed

theorem writeEnvFile_frame_witness:
  "(CHR 0x0A \<notin> set (envValue [ENV_TITLE \<mapsto> ''demo'', ENV_DESCRIPTION \<mapsto> ''desc''] ENV_TITLE) \<and>
    CHR 0x0A \<notin> set (envValue [ENV_TITLE \<mapsto> ''demo'', ENV_DESCRIPTION \<mapsto> ''desc'']
                       ENV_DESCRIPTION)) \<and>
   js_split (CHR 0x0A) (fileContent (Some ''# note\<newline>A=1\<newline>VITE_TITLE=old\<newline>''))
     = [''# note'', ''A=1'', ''VITE_TITLE=old'', ''''] \<and>
   js_split (CHR 0x0A)
     (writeEnvFile [ENV_TITLE \<mapsto> ''demo'', ENV_DESCRIPTION \<mapsto> ''desc'']
        (Some ''# note\<newline>A=1\<newline>VITE_TITLE=old\<newline>''))
     = [''# note'', ''A=1'', ''VITE_TITLE=demo'', '''', ''VITE_DESCRIPTION=desc'', '''']"
proof -
  let ?file = "Some ''# note\<newline>A=1\<newline>VITE_TITLE=old\<newline>''"
  let ?env = "[ENV_TITLE \<mapsto> ''demo'', ENV_DESCRIPTION \<mapsto> ''desc'']"
  let ?ls = "js_split (CHR 0x0A) (fileContent ?file)"
  have t: "CHR 0x0A \<notin> set (envValue ?env ENV_TITLE)"
    by (simp add: envValue_def ENV_TITLE_def ENV_DESCRIPTION_def)
  have d: "CHR 0x0A \<notin> set (envValue ?env ENV_DESCRIPTION)"
    by (simp add: envValue_def ENV_TITLE_def ENV_DESCRIPTION_def)
  have ls: "?ls = [''# note'', ''A=1'', ''VITE_TITLE=old'', '''']"
    by (simp add: fileContent_def js_split_run del: js_split.simps)
  have k: "keptLength [''# note'', ''A=1'', ''VITE_TITLE=old'', ''''] = 3"
    by (simp add: env_eval)
  have a: "addedLines ?env [''# note'', ''A=1'', ''VITE_TITLE=old'', '''']
             = [''VITE_DESCRIPTION=desc'']"
    by (simp add: env_eval)
  have iT: "firstEnvVar [''# note'', ''A=1'', ''VITE_TITLE=old'', ''''] ENV_TITLE = 2"
    by (simp add: env_eval)
  have iD: "firstEnvVar [''# note'', ''A=1'', ''VITE_TITLE=old'', ''''] ENV_DESCRIPTION = 4"
    by (simp add: env_eval)
  have e: "envLine ENV_TITLE (envValue ?env ENV_TITLE) = ''VITE_TITLE=demo''"
    by (simp add: env_eval)
  from writeEnvFile_frame [OF t d, of ?file]
  have "js_split (CHR 0x0A) (writeEnvFile ?env ?file) =
        take (keptLength ?ls)
          (?ls[firstEnvVar ?ls ENV_TITLE := envLine ENV_TITLE (envValue ?env ENV_TITLE),
               firstEnvVar ?ls ENV_DESCRIPTION :=
                 envLine ENV_DESCRIPTION (envValue ?env ENV_DESCRIPTION)])
        @ (if addedLines ?env ?ls = [] \<or> keptLength ?ls = 0 then [] else [[]])
        @ addedLines ?env ?ls
        @ (if addedLines ?env ?ls = [] \<and> endsWith (fileContent ?file) NL then [] else [[]])"
    unfolding Let_def by blast
  then have "js_split (CHR 0x0A) (writeEnvFile ?env ?file)
     = [''# note'', ''A=1'', ''VITE_TITLE=demo'', '''', ''VITE_DESCRIPTION=desc'', '''']"
    unfolding ls k a iT iD e by simp
  with t d ls show ?thesis by blast
qed

text \<open>
  C1 as stated fails in two ways. First, a file with no assignment of either key whose
  second line holds two spaces: both keys are appended, the blank lines at the end are
  removed first, and the line of two spaces is replaced by one empty separator line.
  Second, a name of two lines: the line that assigns VITE_TITLE is overwritten by two
  lines, and the line "A=1" that followed it moves from index 1 to index 2.
\<close>

theorem updateEnv_changes_lines:
  "updateEnv ''demo'' ''desc'' (Some ''A=1\<newline>  \<newline>'')
     = ''A=1\<newline>\<newline>VITE_TITLE=demo\<newline>VITE_DESCRIPTION=desc\<newline>'' \<and>
   js_split (CHR 0x0A) ''A=1\<newline>  \<newline>'' ! 1 = ''  '' \<and>
   js_split (CHR 0x0A) (updateEnv ''demo'' ''desc'' (Some ''A=1\<newline>  \<newline>'')) ! 1 = '''' \<and>
   updateEnv ''x\<newline>y'' ''desc'' (Some ''VITE_TITLE=old\<newline>A=1\<newline>'')
     = ''VITE_TITLE=x\<newline>y\<newline>A=1\<newline>\<newline>VITE_DESCRIPTION=desc\<newline>'' \<and>
   js_split (CHR 0x0A) ''VITE_TITLE=old\<newline>A=1\<newline>'' ! 1 = ''A=1'' \<and>
   js_split (CHR 0x0A)
     (updateEnv ''x\<newline>y'' ''desc'' (Some ''VITE_TITLE=old\<newline>A=1\<newline>'')) ! 1 = ''y''"
proof -
  have a: "updateEnv ''demo'' ''desc'' (Some ''A=1\<newline>  \<newline>'')
     = ''A=1\<newline>\<newline>VITE_TITLE=demo\<newline>VITE_DESCRIPTION=desc\<newline>''"
    by (simp add: env_eval del: js_split.simps)
  have b: "updateEnv ''x\<newline>y'' ''desc'' (Some ''VITE_TITLE=old\<newline>A=1\<newline>'')
     = ''VITE_TITLE=x\<newline>y\<newline>A=1\<newline>\<newline>VITE_DESCRIPTION=desc\<newline>''"
    by (simp add: env_eval del: js_split.simps)
  show ?thesis
    unfolding a b by (simp add: js_split_run del: js_split.simps)
qed

text \<open>
  C4, as the code has it. When the arguments hold --packageManager followed by a value
  that is not empty and is not one of npm, yarn and pnpm, \<^verbatim>\<open>parseArgs\<close> reports an
  invalid value and the process exits with code 1; the run consists of that report alone
  and leaves the world as it was. The value reported is the given one when no earlier
  token is --packageManager.
\<close>

theorem invalid_packageManager_exits:
  assumes "Suc k < length argv" "argv ! k = ''--packageManager''" "argv ! Suc k = v"
    "v \<noteq> []" "v \<notin> set PACKAGE_MANAGERS"
  shows "\<exists>u. u \<notin> set PACKAGE_MANAGERS \<and>
           parseArgs argv = Inl (ProcessExit 1 (invalidPackageManagerMessage u)) \<and>
           main argv stdin w =
             Some \<lparr>exitCode = 1, world = w,
                   events = [ReportInvalidPackageManager (invalidPackageManagerMessage u)]\<rparr> \<and>
           ((\<forall>m<k. argv ! m \<noteq> ''--packageManager'') \<longrightarrow> u = v)"
proof -
  from assms have ne: "argv ! Suc k \<noteq> []" and bad: "argv ! Suc k \<notin> set PACKAGE_MANAGERS"
    by simp_all
  from parseLoop_invalid [OF assms(1,2) ne bad, of 0 noCliArgs] obtain u where
    u: "u \<notin> set PACKAGE_MANAGERS"
      "parseLoop argv 0 noCliArgs = Inl (ProcessExit 1 (invalidPackageManagerMessage u))"
      "(\<forall>m. 0 \<le> m \<and> m < k \<longrightarrow> argv ! m \<noteq> ''--packageManager'') \<longrightarrow> u = argv ! Suc k"
    by blast
  from u(2) have p: "parseArgs argv = Inl (ProcessExit 1 (invalidPackageManagerMessage u))"
    by (simp add: parseArgs_def)
  then have m: "main argv stdin w =
             Some \<lparr>exitCode = 1, world = w,
                   events = [ReportInvalidPackageManager (invalidPackageManagerMessage u)]\<rparr>"
    by (simp add: main_def)
  from u(3) assms(3) have "(\<forall>m<k. argv ! m \<noteq> ''--packageManager'') \<longrightarrow> u = v" by simp
  with u(1) p m show ?thesis by blast
qed

theorem invalid_packageManager_exits_witness:
  "(Suc 2 < length [''--name'', ''x'', ''--packageManager'', ''bun''] \<and>
    [''--name'', ''x'', ''--packageManager'', ''bun''] ! 2 = ''--packageManager'' \<and>
    [''--name'', ''x'', ''--packageManager'', ''bun''] ! Suc 2 = ''bun'' \<and>
    ''bun'' \<noteq> [] \<and> ''bun'' \<notin> set PACKAGE_MANAGERS) \<and>
   main [''--name'', ''x'', ''--packageManager'', ''bun''] [] sampleWorld =
     Some \<lparr>exitCode = 1, world = sampleWorld,
           events = [ReportInvalidPackageManager (invalidPackageManagerMessage ''bun'')]\<rparr>"
proof -
  let ?argv = "[''--name'', ''x'', ''--packageManager'', ''bun'']"
  have h: "Suc 2 < length ?argv" "?argv ! 2 = ''--packageManager''" "?argv ! Suc 2 = ''bun''"
    "''bun'' \<noteq> []" "''bun'' \<notin> set PACKAGE_MANAGERS"
    by (simp_all add: PACKAGE_MANAGERS_def)
  have first: "\<forall>m<2. ?argv ! m \<noteq> ''--packageManager''"
    by (simp add: less_Suc_eq numeral_2_eq_2)
  from invalid_packageManager_exits [OF h, of "[]" sampleWorld] first
  have "main ?argv [] sampleWorld =
     Some \<lparr>exitCode = 1, world = sampleWorld,
           events = [ReportInvalidPackageManager (invalidPackageManagerMessage ''bun'')]\<rparr>"
    by blast
  with h show ?thesis by blast
qed

lemma applyBootstrapChanges_complete:
  assumes "npmSetOk w" "readmeFile w = Some readme" "deployFile w = Some deploy"
  shows "fst (applyBootstrapChanges options w) = True"
    and "snd (snd (applyBootstrapChanges options w)) =
           [Patched PackageJson, Patched ReadmeMd, Patched DotEnv,
            Patched WorktreesJson, Patched DeployYml, Complete]"
  using assms by (simp_all add: applyBootstrapChanges_def Let_def)

lemma applyAndFinish_complete:
  assumes "npmSetOk w" "readmeFile w = Some readme" "deployFile w = Some deploy"
  shows "exitCode (applyAndFinish options w earlier) = 0"
    and "events (applyAndFinish options w earlier) =
           earlier @ [Patched PackageJson, Patched ReadmeMd, Patched DotEnv,
                     Patched WorktreesJson, Patched DeployYml, Complete, CloseInput]"
  using applyBootstrapChanges_complete [OF assms, of options]
  by (auto simp: applyAndFinish_def split: prod.splits)

text \<open>
  C4 as stated fails for the empty string, which is not one of the three names: the
  guard \<^verbatim>\<open>args[i + 1]\<close> is false for it, the flag is skipped without a report, and a
  run without questions goes on to patch all five targets and exits with code 0.
\<close>

theorem empty_packageManager_is_ignored:
  "'''' \<notin> set PACKAGE_MANAGERS \<and>
   parseArgs [''--packageManager'', ''''] = Inr noCliArgs \<and>
   map_option exitCode (main [''--packageManager'', '''', ''--no-interactive''] [] sampleWorld)
     = Some 0 \<and>
   map_option events (main [''--packageManager'', '''', ''--no-interactive''] [] sampleWorld)
     = Some [ReadPackageJson, ReadPackageJson, Patched PackageJson, Patched ReadmeMd,
             Patched DotEnv, Patched WorktreesJson, Patched DeployYml, Complete, CloseInput]"
proof -
  have p: "parseArgs [''--packageManager'', ''''] = Inr noCliArgs"
    by (simp add: args_eval)
  have q: "parseArgs [''--packageManager'', '''', ''--no-interactive'']
             = Inr (noCliArgs\<lparr>cliInteractive := Some False\<rparr>)"
    by (simp add: args_eval)
  have w: "npmSetOk sampleWorld" "readmeFile sampleWorld = Some ''# template\<newline>''"
    "deployFile sampleWorld =
       Some ''steps:\<newline>  - name: Install dependencies\<newline>    run: npm ci\<newline>''"
    by (simp_all add: sampleWorld_def)
  note fin = applyAndFinish_complete [OF w]
  have "main [''--packageManager'', '''', ''--no-interactive''] [] sampleWorld
      = Some (applyAndFinish
                (mergeOptions (noCliArgs\<lparr>cliInteractive := Some False\<rparr>)
                   (getCurrentPackageJsonValues sampleWorld))
                sampleWorld [ReadPackageJson, ReadPackageJson])"
    by (simp add: main_def q collectOptions_def shouldSkipInteractive_def mergeOptions_def
        noCliArgs_def Let_def)
  with p fin show ?thesis by (simp add: PACKAGE_MANAGERS_def)
qed


section \<open>The confirmation question\<close>

lemma char_eq_code: "c = d \<longleftrightarrow> (of_char c :: nat) = of_char d"
  by simp

lemma isWhiteSpace_code:
  "isWhiteSpace c \<longleftrightarrow> (of_char c :: nat) \<in> {9, 10, 11, 12, 13, 32, 160}"
  unfolding isWhiteSpace_def by (simp add: char_eq_code [of c] del: of_char_eq_iff)

lemma of_char_lowerChar:
  "(of_char (lowerChar c) :: nat) =
     (if (65 \<le> (of_char c :: nat) \<and> (of_char c :: nat) \<le> 90) \<or>
         (192 \<le> (of_char c :: nat) \<and> (of_char c :: nat) \<le> 222 \<and> (of_char c :: nat) \<noteq> 215)
      then of_char c + 32 else of_char c)"
  by (simp add: lowerChar_def Let_def)

lemma isWhiteSpace_lowerChar: "isWhiteSpace (lowerChar c) = isWhiteSpace c"
  unfolding isWhiteSpace_code of_char_lowerChar by auto

text \<open>Lowering the case and trimming can be done in either order.\<close>

lemma js_trim_toLowerCase: "js_trim (toLowerCase s) = toLowerCase (js_trim s)"
proof -
  have comp: "isWhiteSpace \<circ> lowerChar = isWhiteSpace"
    by (rule ext) (simp add: isWhiteSpace_lowerChar)
  have d: "dropWhile isWhiteSpace (map lowerChar xs) = map lowerChar (dropWhile isWhiteSpace xs)"
    for xs by (simp add: dropWhile_map comp)
  show ?thesis
    by (simp add: js_trim_def toLowerCase_def d rev_map)
qed

lemma collectOptions_no_patch:
  assumes "collectOptions w cliArgs argv stdin = Some (options, stdin1, collected)"
  shows "Patched t \<notin> set collected"
  using assms
  by (auto simp: collectOptions_def promptForUserInput_def Let_def
      split: if_splits option.splits list.splits)

lemma collectOptions_no_cancel:
  assumes "collectOptions w cliArgs argv stdin = Some (options, stdin1, collected)"
  shows "Cancelled \<notin> set collected"
  using assms
  by (auto simp: collectOptions_def promptForUserInput_def Let_def
      split: if_splits option.splits list.splits)

lemma applyBootstrapChanges_no_cancel:
  "Cancelled \<notin> set (snd (snd (applyBootstrapChanges options w)))"
  by (simp add: applyBootstrapChanges_def Let_def split: option.splits)

lemma applyBootstrapChanges_manifest:
  assumes "npmSetOk w"
  shows "Patched PackageJson \<in> set (snd (snd (applyBootstrapChanges options w)))"
    and "manifestSet (fst (snd (applyBootstrapChanges options w)))
           = Some (optName options, optDescription options)"
  using assms by (simp_all add: applyBootstrapChanges_def Let_def split: option.splits)

lemma applyAndFinish_no_cancel:
  assumes "Cancelled \<notin> set earlier"
  shows "Cancelled \<notin> set (events (applyAndFinish options w earlier))"
  using assms applyBootstrapChanges_no_cancel [of options w]
  by (auto simp: applyAndFinish_def split: prod.splits bool.splits)

lemma applyAndFinish_manifest:
  assumes "npmSetOk w"
  shows "Patched PackageJson \<in> set (events (applyAndFinish options w earlier))"
    and "manifestSet (world (applyAndFinish options w earlier))
           = Some (optName options, optDescription options)"
  using applyBootstrapChanges_manifest [OF assms, of options]
  by (auto simp: applyAndFinish_def split: prod.splits bool.splits)

text \<open>
  C5. The answer to the confirmation question is a refusal exactly when its trimmed,
  lower-cased form is "n" or "no"; the empty answer accepts. In a run that reaches the
  question, that is one whose resolved options are interactive, a refusal ends the run
  with exit code 0 after the message of cancellation: the world is as it was and no
  patcher has run. Every other answer makes the run go on to apply the changes: nothing
  is cancelled; when \<^verbatim>\<open>npm pkg set\<close> succeeds package.json is patched with the resolved
  name and description; and when README.md and deploy.yml exist as well, all five
  targets are patched in order and the exit code is 0.
\<close>

theorem confirmation_decides:
  "(confirmChanges answer \<longleftrightarrow>
      toLowerCase (js_trim answer) \<noteq> ''n'' \<and> toLowerCase (js_trim answer) \<noteq> ''no'') \<and>
   confirmChanges [] \<and>
   (parseArgs argv = Inr cliArgs \<longrightarrow>
    collectOptions w cliArgs argv stdin = Some (options, answer # stdin2, collected) \<longrightarrow>
    optInteractive options \<longrightarrow>
      (\<not> confirmChanges answer \<longrightarrow>
         main argv stdin w =
           Some \<lparr>exitCode = 0, world = w,
                 events = ReadPackageJson # collected @
                            [Summary, Question AskConfirm, Cancelled, CloseInput]\<rparr> \<and>
         (\<forall>t. Patched t \<notin> set (ReadPackageJson # collected @
                                   [Summary, Question AskConfirm, Cancelled, CloseInput]))) \<and>
      (confirmChanges answer \<longrightarrow>
         (let run = applyAndFinish options w
                      (ReadPackageJson # collected @ [Summary, Question AskConfirm])
          in main argv stdin w = Some run \<and>
             Cancelled \<notin> set (events run) \<and>
             (npmSetOk w \<longrightarrow>
                Patched PackageJson \<in> set (events run) \<and>
                manifestSet (world run) = Some (optName options, optDescription options)) \<and>
             (npmSetOk w \<and> readmeFile w \<noteq> None \<and> deployFile w \<noteq> None \<longrightarrow>
                exitCode run = 0 \<and>
                events run =
                  (ReadPackageJson # collected @ [Summary, Question AskConfirm]) @
                  [Patched PackageJson, Patched ReadmeMd, Patched DotEnv,
                   Patched WorktreesJson, Patched DeployYml, Complete, CloseInput]))))"
proof -
  let ?earlier = "ReadPackageJson # collected @ [Summary, Question AskConfirm]"
  let ?run = "applyAndFinish options w ?earlier"
  have a: "confirmChanges answer \<longleftrightarrow>
      toLowerCase (js_trim answer) \<noteq> ''n'' \<and> toLowerCase (js_trim answer) \<noteq> ''no''"
    by (simp add: confirmChanges_def js_trim_toLowerCase Let_def)
  have b: "confirmChanges []"
    by (simp add: confirmChanges_def js_trim_def toLowerCase_def)
  have c: "main argv stdin w =
        Some \<lparr>exitCode = 0, world = w,
              events = ReadPackageJson # collected @
                         [Summary, Question AskConfirm, Cancelled, CloseInput]\<rparr> \<and>
      (\<forall>t. Patched t \<notin> set (ReadPackageJson # collected @
                                [Summary, Question AskConfirm, Cancelled, CloseInput]))"
    if p: "parseArgs argv = Inr cliArgs"
      and co: "collectOptions w cliArgs argv stdin = Some (options, answer # stdin2, collected)"
      and i: "optInteractive options" and r: "\<not> confirmChanges answer"
  proof
    show "main argv stdin w =
        Some \<lparr>exitCode = 0, world = w,
              events = ReadPackageJson # collected @
                         [Summary, Question AskConfirm, Cancelled, CloseInput]\<rparr>"
      using p co i r by (simp add: main_def)
    show "\<forall>t. Patched t \<notin> set (ReadPackageJson # collected @
                                [Summary, Question AskConfirm, Cancelled, CloseInput])"
      using collectOptions_no_patch [OF co] by simp
  qed
  have d: "main argv stdin w = Some ?run \<and>
      Cancelled \<notin> set (events ?run) \<and>
      (npmSetOk w \<longrightarrow>
         Patched PackageJson \<in> set (events ?run) \<and>
         manifestSet (world ?run) = Some (optName options, optDescription options)) \<and>
      (npmSetOk w \<and> readmeFile w \<noteq> None \<and> deployFile w \<noteq> None \<longrightarrow>
         exitCode ?run = 0 \<and>
         events ?run = ?earlier @
           [Patched PackageJson, Patched ReadmeMd, Patched DotEnv,
            Patched WorktreesJson, Patched DeployYml, Complete, CloseInput])"
    if p: "parseArgs argv = Inr cliArgs"
      and co: "collectOptions w cliArgs argv stdin = Some (options, answer # stdin2, collected)"
      and i: "optInteractive options" and y: "confirmChanges answer"
  proof (intro conjI impI)
    show "main argv stdin w = Some ?run"
      using p co i y by (simp add: main_def)
    have "Cancelled \<notin> set ?earlier"
      using collectOptions_no_cancel [OF co] by simp
    then show "Cancelled \<notin> set (events ?run)" by (rule applyAndFinish_no_cancel)
  next
    assume "npmSetOk w"
    then show "Patched PackageJson \<in> set (events ?run)"
      by (rule applyAndFinish_manifest)
  next
    assume "npmSetOk w"
    then show "manifestSet (world ?run) = Some (optName options, optDescription options)"
      by (rule applyAndFinish_manifest)
  next
    assume f: "npmSetOk w \<and> readmeFile w \<noteq> None \<and> deployFile w \<noteq> None"
    then obtain readme deploy where
      "npmSetOk w" "readmeFile w = Some readme" "deployFile w = Some deploy" by auto
    then show "exitCode ?run = 0" by (rule applyAndFinish_complete)
  next
    assume f: "npmSetOk w \<and> readmeFile w \<noteq> None \<and> deployFile w \<noteq> None"
    then obtain readme deploy where
      "npmSetOk w" "readmeFile w = Some readme" "deployFile w = Some deploy" by auto
    then show "events ?run = ?earlier @
           [Patched PackageJson, Patched ReadmeMd, Patched DotEnv,
            Patched WorktreesJson, Patched DeployYml, Complete, CloseInput]"
      by (rule applyAndFinish_complete)
  qed
  from a b c d show ?thesis unfolding Let_def by blast
qed

lemmas run_eval =
  collectOptions_def shouldSkipInteractive_def mergeOptions_def promptForUserInput_def
  getCurrentPackageJsonValues_def extractNpmPkgValue_def DEFAULTS_def orElse_def
  confirmChanges_def toLowerCase_def lowerChar_def js_trim_def isWhiteSpace_def
  startsWith_def endsWith_def Let_def

theorem confirmation_decides_witness:
  "(parseArgs [] = Inr noCliArgs \<and>
    collectOptions sampleWorld noCliArgs [] ['''', '''', ''yarn'', '' No '']
      = Some (\<lparr>optName = ''template'', optDescription = ''A template.'',
                optPackageManager = Yarn, optInteractive = True\<rparr>,
              '' No '' # [], [ReadPackageJson, Question AskName, Question AskDescription,
                            Question AskPackageManager]) \<and>
    collectOptions sampleWorld noCliArgs [] ['''', '''', ''yarn'', '''']
      = Some (\<lparr>optName = ''template'', optDescription = ''A template.'',
                optPackageManager = Yarn, optInteractive = True\<rparr>,
              '''' # [], [ReadPackageJson, Question AskName, Question AskDescription,
                          Question AskPackageManager]) \<and>
    optInteractive \<lparr>optName = ''template'', optDescription = ''A template.'',
                    optPackageManager = Yarn, optInteractive = True\<rparr> \<and>
    \<not> confirmChanges '' No '' \<and> confirmChanges '''' \<and>
    npmSetOk sampleWorld \<and> readmeFile sampleWorld \<noteq> None \<and> deployFile sampleWorld \<noteq> None) \<and>
   main [] ['''', '''', ''yarn'', '' No ''] sampleWorld =
     Some \<lparr>exitCode = 0, world = sampleWorld,
           events = [ReadPackageJson, ReadPackageJson, Question AskName, Question AskDescription,
                     Question AskPackageManager, Summary, Question AskConfirm, Cancelled,
                     CloseInput]\<rparr> \<and>
   map_option exitCode (main [] ['''', '''', ''yarn'', ''''] sampleWorld) = Some 0 \<and>
   map_option events (main [] ['''', '''', ''yarn'', ''''] sampleWorld) =
     Some [ReadPackageJson, ReadPackageJson, Question AskName, Question AskDescription,
           Question AskPackageManager, Summary, Question AskConfirm,
           Patched PackageJson, Patched ReadmeMd, Patched DotEnv, Patched WorktreesJson,
           Patched DeployYml, Complete, CloseInput] \<and>
   map_option (\<lambda>run. manifestSet (world run)) (main [] ['''', '''', ''yarn'', ''''] sampleWorld) =
     Some (Some (''template'', ''A template.''))"
proof -
  let ?options = "\<lparr>optName = ''template'', optDescription = ''A template.'',
                optPackageManager = Yarn, optInteractive = True\<rparr>"
  let ?collected = "[ReadPackageJson, Question AskName, Question AskDescription,
                            Question AskPackageManager]"
  let ?run = "applyAndFinish ?options sampleWorld
                (ReadPackageJson # ?collected @ [Summary, Question AskConfirm])"
  have p: "parseArgs [] = Inr noCliArgs"
    by (simp add: parseArgs_def parseLoop_end)
  have co: "collectOptions sampleWorld noCliArgs [] ['''', '''', ''yarn'', '' No '']
      = Some (?options, '' No '' # [], ?collected)"
    by (simp add: run_eval sampleWorld_def noCliArgs_def PACKAGE_MANAGERS_def
        packageManagerOf_def)
  have co2: "collectOptions sampleWorld noCliArgs [] ['''', '''', ''yarn'', '''']
      = Some (?options, '''' # [], ?collected)"
    by (simp add: run_eval sampleWorld_def noCliArgs_def PACKAGE_MANAGERS_def
        packageManagerOf_def)
  have i: "optInteractive ?options" by simp
  have r: "\<not> confirmChanges '' No ''"
    by code_simp
  have y: "confirmChanges ''''"
    by code_simp
  have w: "npmSetOk sampleWorld" "readmeFile sampleWorld \<noteq> None"
    "deployFile sampleWorld \<noteq> None"
    by (simp_all add: sampleWorld_def)
  from confirmation_decides [of "'' No ''" "[]" noCliArgs sampleWorld
      "['''', '''', ''yarn'', '' No '']" ?options "[]" ?collected] p co i r
  have refused: "main [] ['''', '''', ''yarn'', '' No ''] sampleWorld =
     Some \<lparr>exitCode = 0, world = sampleWorld,
           events = ReadPackageJson # ?collected @
                      [Summary, Question AskConfirm, Cancelled, CloseInput]\<rparr>"
    by blast
  from confirmation_decides [of "''''" "[]" noCliArgs sampleWorld
      "['''', '''', ''yarn'', '''']" ?options "[]" ?collected] p co2 i y w
  have accepted: "main [] ['''', '''', ''yarn'', ''''] sampleWorld = Some ?run"
    "exitCode ?run = 0"
    "events ?run = (ReadPackageJson # ?collected @ [Summary, Question AskConfirm]) @
       [Patched PackageJson, Patched ReadmeMd, Patched DotEnv,
        Patched WorktreesJson, Patched DeployYml, Complete, CloseInput]"
    "manifestSet (world ?run) = Some (optName ?options, optDescription ?options)"
    unfolding Let_def by blast+
  from p co co2 i r y w refused accepted show ?thesis by simp
qed

text \<open>
  C7 against the code. The token --interactive=false is not a flag that \<^verbatim>\<open>parseArgs\<close>
  knows, so the resolved options stay interactive; \<^verbatim>\<open>shouldSkipInteractive\<close> finds the
  token and skips the three questions about the options, but \<^verbatim>\<open>main\<close> tests the
  resolved options alone: it shows the summary and asks for confirmation. With the answer
  "n" nothing is patched, and with no answer waiting the run does not go on. The run with
  --no-interactive asks nothing and applies the patchers whatever is on the input.
\<close>

theorem interactive_equals_false_still_confirms:
  "parseArgs [''--interactive=false''] = Inr noCliArgs \<and>
   main [''--interactive=false''] [''n''] w =
     Some \<lparr>exitCode = 0, world = w,
           events = [ReadPackageJson, ReadPackageJson, Summary, Question AskConfirm,
                     Cancelled, CloseInput]\<rparr> \<and>
   main [''--interactive=false''] [] w = None \<and>
   main [''--no-interactive''] stdin w =
     Some (applyAndFinish
             (mergeOptions (noCliArgs\<lparr>cliInteractive := Some False\<rparr>)
                (getCurrentPackageJsonValues w))
             w [ReadPackageJson, ReadPackageJson])"
proof -
  have p: "parseArgs [''--interactive=false''] = Inr noCliArgs"
    by (simp add: args_eval)
  have q: "parseArgs [''--no-interactive''] = Inr (noCliArgs\<lparr>cliInteractive := Some False\<rparr>)"
    by (simp add: args_eval)
  have n: "\<not> confirmChanges ''n''"
    by code_simp
  have co: "collectOptions w noCliArgs [''--interactive=false''] s =
      Some (mergeOptions noCliArgs (getCurrentPackageJsonValues w), s, [ReadPackageJson])" for s
    by (simp add: collectOptions_def shouldSkipInteractive_def Let_def)
  have i: "optInteractive (mergeOptions noCliArgs (getCurrentPackageJsonValues w))"
    by (simp add: mergeOptions_def noCliArgs_def DEFAULTS_def)
  have a: "main [''--interactive=false''] [''n''] w =
     Some \<lparr>exitCode = 0, world = w,
           events = [ReadPackageJson, ReadPackageJson, Summary, Question AskConfirm,
                     Cancelled, CloseInput]\<rparr>"
    using n i by (simp add: main_def p co)
  have b: "main [''--interactive=false''] [] w = None"
    using i by (simp add: main_def p co)
  have c: "main [''--no-interactive''] stdin w =
     Some (applyAndFinish
             (mergeOptions (noCliArgs\<lparr>cliInteractive := Some False\<rparr>)
                (getCurrentPackageJsonValues w))
             w [ReadPackageJson, ReadPackageJson])"
    by (simp add: main_def q collectOptions_def shouldSkipInteractive_def mergeOptions_def
        noCliArgs_def Let_def)
  from p a b c show ?thesis by blast
qed

text \<open>
  C10, as the code has it. A last token --packageManager that does not follow another
  token --packageManager is ignored: \<^verbatim>\<open>parseArgs\<close> returns what it returns without that
  token, whether options or an exit caused by an earlier flag, and so does the whole run.
  When that result holds no package manager, \<^verbatim>\<open>mergeOptions\<close> resolves it to the
  default npm.
\<close>

theorem trailing_packageManager_ignored:
  assumes "args = [] \<or> last args \<noteq> ''--packageManager''"
  shows "parseArgs (args @ [''--packageManager'']) = parseArgs args \<and>
         main (args @ [''--packageManager'']) stdin w = main args stdin w \<and>
         parseArgs [''--packageManager''] = Inr noCliArgs \<and>
         (cliPackageManager cliArgs = None \<longrightarrow>
            optPackageManager (mergeOptions cliArgs packageJsonValues) = Npm)"
proof -
  have p: "parseArgs (args @ [''--packageManager'']) = parseArgs args"
    unfolding parseArgs_def by (rule parseLoop_trailing [OF assms]) simp
  have s: "shouldSkipInteractive c (args @ [''--packageManager'']) = shouldSkipInteractive c args"
    for c by (simp add: shouldSkipInteractive_def)
  have co: "collectOptions w c (args @ [''--packageManager'']) stdin = collectOptions w c args stdin"
    for c by (simp add: collectOptions_def s)
  have m: "main (args @ [''--packageManager'']) stdin w = main args stdin w"
    by (simp add: main_def p co split: sum.splits)
  have e: "parseArgs [''--packageManager''] = Inr noCliArgs"
    by (simp add: args_eval)
  have d: "cliPackageManager cliArgs = None \<longrightarrow>
            optPackageManager (mergeOptions cliArgs packageJsonValues) = Npm"
    by (simp add: mergeOptions_def DEFAULTS_def)
  from p m e d show ?thesis by blast
qed

theorem trailing_packageManager_ignored_witness:
  "([''--name'', ''x''] = [] \<or> last [''--name'', ''x''] \<noteq> ''--packageManager'') \<and>
   parseArgs ([''--name'', ''x''] @ [''--packageManager''])
     = Inr (noCliArgs\<lparr>cliName := Some ''x''\<rparr>)"
proof -
  have h: "[''--name'', ''x''] = [] \<or> last [''--name'', ''x''] \<noteq> ''--packageManager''"
    by simp
  have "parseArgs [''--name'', ''x''] = Inr (noCliArgs\<lparr>cliName := Some ''x''\<rparr>)"
    by (simp add: args_eval)
  with trailing_packageManager_ignored [OF h] h show ?thesis by simp
qed

text \<open>
  C10 as stated fails when the token before the last is --packageManager too: the first
  takes the second as its value, which is not a package manager, and the process exits
  with code 1.
\<close>

theorem double_packageManager_exits:
  "parseArgs [''--packageManager'', ''--packageManager'']
     = Inl (ProcessExit 1
         ''Invalid package manager: --packageManager. Must be one of: npm, yarn, pnpm'')"
  by (simp add: args_eval)


section \<open>deploy.yml: the install step\<close>

lemma installCommand_no_NL: "CHR 0x0A \<notin> set (getGithubActionsInstallCommand pm)"
  by (cases pm) (simp_all add: getGithubActionsInstallCommand_def)

text \<open>
  The written document when the pattern matches first at a step given by its lines: the
  name line, blank lines, the run line.
\<close>

lemma updateDeployYml_pattern:
  assumes ind: "\<forall>c\<in>set indent2. isWhiteSpace c"
    and old: "old \<noteq> []" "\<forall>c\<in>set old. \<not> isLineTerminator c"
    and t2: "t2 = [] \<or> isLineTerminator (hd t2)"
    and doc: "js_split (CHR 0x0A) content =
                pre @ [x @ STEP_NAME @ t1] @ blanks @ [indent2 @ RUN_KEY @ old @ t2] @ post"
    and t1: "\<forall>c\<in>set t1. isWhiteSpace c"
    and blanks: "\<forall>b\<in>set blanks. \<forall>c\<in>set b. isWhiteSpace c"
    and A: "js_join NL (pre @ [x]) \<noteq> []" "isWhiteSpace (last (js_join NL (pre @ [x])))"
    and first: "\<forall>q<length (js_join NL (pre @ [x])). \<not> patternAt content q"
  shows "updateDeployYml pm content =
           js_join NL (pre @ [x @ STEP_NAME @ t1] @ blanks @
                       [indent2 @ RUN_KEY @ getGithubActionsInstallCommand pm @ t2] @ post)"
proof -
  define A where "A = js_join NL (pre @ [x])"
  define w2 where "w2 = t1 @ NL @ concat (map (\<lambda>b. b @ NL) blanks) @ indent2"
  define a where "a = t2 @ (if post = [] then [] else NL @ js_join NL post)"
  define cmd where "cmd = getGithubActionsInstallCommand pm"
  have w2: "w2 \<noteq> []" "\<forall>c\<in>set w2. isWhiteSpace c"
    using t1 ind blanks by (auto simp: w2_def isWhiteSpace_def)
  have a: "a = [] \<or> isLineTerminator (hd a)"
    using t2 by (cases t2) (auto simp: a_def isLineTerminator_def)
  have joined: "js_join NL (pre @ [x @ STEP_NAME @ t1] @ blanks @
                          [indent2 @ RUN_KEY @ c @ t2] @ post)
     = A @ STEP_NAME @ w2 @ RUN_KEY @ c @ a" for c
    unfolding A_def w2_def a_def by (rule step_document_text)
  have "content = js_join NL (js_split (CHR 0x0A) content)"
    by (simp only: js_join_split)
  then have content: "content = A @ STEP_NAME @ w2 @ RUN_KEY @ old @ a"
    unfolding doc joined .
  have f: "\<forall>q<length A. \<not> patternAt (A @ STEP_NAME @ w2 @ RUN_KEY @ old @ a) q"
    using first unfolding A_def [symmetric] content .
  from installPatternSearch_first [OF A [folded A_def] f w2 old a]
  obtain b g1 where
    s: "installPatternSearch (A @ STEP_NAME @ w2 @ RUN_KEY @ old @ a) = Some (b, g1, old, a)"
       "b @ g1 = A @ STEP_NAME @ w2 @ RUN_KEY" by blast
  have "updateDeployYml pm (A @ STEP_NAME @ w2 @ RUN_KEY @ old @ a) = b @ g1 @ cmd @ a"
    unfolding updateDeployYml_def Let_def s(1) cmd_def by simp
  also have "\<dots> = (b @ g1) @ cmd @ a" by simp
  also have "\<dots> = A @ STEP_NAME @ w2 @ RUN_KEY @ cmd @ a"
    unfolding s(2) by simp
  finally show ?thesis
    unfolding content [symmetric] joined cmd_def .
qed

text \<open>
  The written document when the pattern matches nowhere and the first pair of lines that
  the fallback looks for ends with a run line.
\<close>

lemma updateDeployYml_fallback:
  assumes ind: "\<forall>c\<in>set indent2. isWhiteSpace c"
    and old: "old \<noteq> []" "\<forall>c\<in>set old. \<not> isLineTerminator c"
    and t2: "t2 = [] \<or> isLineTerminator (hd t2)"
    and doc: "js_split (CHR 0x0A) content = pre @ [l, indent2 @ RUN_KEY @ old @ t2] @ post"
    and nowhere: "\<forall>q. \<not> patternAt content q"
    and l: "js_includes l ''Install dependencies''"
    and first: "\<forall>i<length pre. \<not> linePairAt (js_split (CHR 0x0A) content) i"
  shows "updateDeployYml pm content =
           js_join NL (pre @ [l, indent2 @ RUN_KEY @ getGithubActionsInstallCommand pm @ t2] @ post)"
proof -
  define m where "m = indent2 @ RUN_KEY @ old @ t2"
  define cmd where "cmd = getGithubActionsInstallCommand pm"
  have lines: "js_split (CHR 0x0A) content = pre @ l # m # post"
    unfolding doc m_def by simp
  have none: "installPatternSearch content = None"
    using nowhere by (rule installPatternSearch_none)
  have m: "js_includes m ''run:''"
    unfolding m_def using js_includes_run_line [of indent2 "old @ t2"] by simp
  have f: "\<forall>i<length pre. \<not> linePairAt (pre @ l # m # post) i"
    using first unfolding lines .
  have "fallbackLoop cmd (pre @ l # m # post) = pre @ l # replaceRun cmd m # post"
    using f l m by (rule fallbackLoop_first)
  also have "replaceRun cmd m = indent2 @ RUN_KEY @ cmd @ t2"
    unfolding m_def by (rule replaceRun_line [OF ind old t2])
  finally have "fallbackLoop cmd (js_split (CHR 0x0A) content)
      = pre @ [l, indent2 @ RUN_KEY @ cmd @ t2] @ post"
    unfolding lines by simp
  then show ?thesis
    unfolding updateDeployYml_def Let_def none cmd_def by simp
qed

text \<open>The document is written back as it was when neither strategy finds its step.\<close>

lemma updateDeployYml_unchanged:
  assumes nowhere: "\<forall>q. \<not> patternAt content q"
    and nopair: "\<forall>i. \<not> linePairAt (js_split (CHR 0x0A) content) i"
  shows "updateDeployYml pm content = content"
proof -
  have none: "installPatternSearch content = None"
    using nowhere by (rule installPatternSearch_none)
  have "fallbackLoop (getGithubActionsInstallCommand pm) (js_split (CHR 0x0A) content)
          = js_split (CHR 0x0A) content"
    using nopair by (rule fallbackLoop_none)
  then show ?thesis
    unfolding updateDeployYml_def Let_def none by (simp add: js_join_split)
qed

text \<open>The lines of a document that was joined from lines of which one was replaced.\<close>

lemma replaced_run_line:
  assumes doc: "js_split (CHR 0x0A) content = before @ [indent2 @ RUN_KEY @ old @ t2] @ post"
  shows "js_split (CHR 0x0A)
           (js_join NL (before @ [indent2 @ RUN_KEY @ getGithubActionsInstallCommand pm @ t2] @ post))
         = before @ [indent2 @ RUN_KEY @ getGithubActionsInstallCommand pm @ t2] @ post"
proof (rule js_split_join)
  show "before @ [indent2 @ RUN_KEY @ getGithubActionsInstallCommand pm @ t2] @ post \<noteq> []"
    by simp
  have n: "CHR 0x0A \<notin> set l"
    if "l \<in> set (before @ [indent2 @ RUN_KEY @ old @ t2] @ post)" for l
    using that unfolding doc [symmetric] by (rule js_split_no_sep)
  have "CHR 0x0A \<notin> set (indent2 @ RUN_KEY @ old @ t2)" by (rule n) simp
  then have "CHR 0x0A \<notin> set (indent2 @ RUN_KEY @ getGithubActionsInstallCommand pm @ t2)"
    using installCommand_no_NL [of pm] by simp
  moreover have "CHR 0x0A \<notin> set l" if "l \<in> set before \<or> l \<in> set post" for l
    by (rule n) (use that in auto)
  ultimately show "\<forall>l\<in>set (before @
        [indent2 @ RUN_KEY @ getGithubActionsInstallCommand pm @ t2] @ post). CHR 0x0A \<notin> set l"
    by auto
qed

text \<open>
  C6, as the code has it. The pattern of the source asks for white space, the step name
  "- name: Install dependencies", white space again, "run: " and a command on the same
  line; \<open>patternAt content q\<close> says that it matches with the step name at offset \<open>q\<close>,
  and \<open>stepTextAt\<close> is what it asks for from the step name on (first part of the
  statement). Take a run line made of indentation, "run: " and a command \<open>old\<close> that
  runs to the end of its line (\<open>t2\<close> allows for a carriage return there).

  Second part: the lines of the document are some lines \<open>pre\<close>, a line that ends with the
  step name (white space \<open>t1\<close> may follow it), blank lines if any, the run line, and
  some lines \<open>post\<close>; white space stands before the step name, in its line or as the
  newline before it; and the pattern matches at no earlier offset. Then the document
  written has the same lines, with the command replaced by the install command of the
  package manager.

  Third part: the pattern matches nowhere, the run line stands right after a line \<open>l\<close>
  that holds "Install dependencies", and no earlier line that holds "Install dependencies"
  is followed at once by a line that holds "run:". Then again the same lines are written,
  with the command replaced.

  Fourth part: when the pattern matches nowhere and no line that holds
  "Install dependencies" is followed at once by a line that holds "run:", the document is
  written back as it was. Last, the command for yarn is "yarn install --frozen-lockfile".
\<close>

theorem updateDeployYml_install_step:
  "(stepTextAt s \<longleftrightarrow>
      (\<exists>w c r. s = STEP_NAME @ w @ RUN_KEY @ c # r \<and> w \<noteq> [] \<and>
         (\<forall>x\<in>set w. isWhiteSpace x) \<and> \<not> isLineTerminator c)) \<and>
   ((\<forall>c\<in>set indent2. isWhiteSpace c) \<and> old \<noteq> [] \<and> (\<forall>c\<in>set old. \<not> isLineTerminator c) \<and>
    (t2 = [] \<or> isLineTerminator (hd t2)) \<and>
    js_split (CHR 0x0A) content =
      pre @ [x @ STEP_NAME @ t1] @ blanks @ [indent2 @ RUN_KEY @ old @ t2] @ post \<and>
    (\<forall>c\<in>set t1. isWhiteSpace c) \<and> (\<forall>b\<in>set blanks. \<forall>c\<in>set b. isWhiteSpace c) \<and>
    js_join NL (pre @ [x]) \<noteq> [] \<and> isWhiteSpace (last (js_join NL (pre @ [x]))) \<and>
    (\<forall>q<length (js_join NL (pre @ [x])). \<not> patternAt content q)
    \<longrightarrow>
      updateDeployYml pm content =
        js_join NL (pre @ [x @ STEP_NAME @ t1] @ blanks @
                    [indent2 @ RUN_KEY @ getGithubActionsInstallCommand pm @ t2] @ post) \<and>
      js_split (CHR 0x0A) (updateDeployYml pm content) =
        pre @ [x @ STEP_NAME @ t1] @ blanks @
        [indent2 @ RUN_KEY @ getGithubActionsInstallCommand pm @ t2] @ post) \<and>
   ((\<forall>c\<in>set indent2. isWhiteSpace c) \<and> old \<noteq> [] \<and> (\<forall>c\<in>set old. \<not> isLineTerminator c) \<and>
    (t2 = [] \<or> isLineTerminator (hd t2)) \<and>
    js_split (CHR 0x0A) content = pre @ [l, indent2 @ RUN_KEY @ old @ t2] @ post \<and>
    js_includes l ''Install dependencies'' \<and>
    (\<forall>q. \<not> patternAt content q) \<and>
    (\<forall>i<length pre. \<not> linePairAt (js_split (CHR 0x0A) content) i)
    \<longrightarrow>
      updateDeployYml pm content =
        js_join NL (pre @ [l, indent2 @ RUN_KEY @ getGithubActionsInstallCommand pm @ t2] @ post) \<and>
      js_split (CHR 0x0A) (updateDeployYml pm content) =
        pre @ [l, indent2 @ RUN_KEY @ getGithubActionsInstallCommand pm @ t2] @ post) \<and>
   ((\<forall>q. \<not> patternAt content q) \<and> (\<forall>i. \<not> linePairAt (js_split (CHR 0x0A) content) i)
    \<longrightarrow> updateDeployYml pm content = content) \<and>
   getGithubActionsInstallCommand Yarn = ''yarn install --frozen-lockfile''"
proof (intro conjI impI)
  show "stepTextAt s \<longleftrightarrow>
      (\<exists>w c r. s = STEP_NAME @ w @ RUN_KEY @ c # r \<and> w \<noteq> [] \<and>
         (\<forall>x\<in>set w. isWhiteSpace x) \<and> \<not> isLineTerminator c)"
    using stepTextAt_elim [of s] stepTextAt_intro by blast
next
  assume h: "(\<forall>c\<in>set indent2. isWhiteSpace c) \<and> old \<noteq> [] \<and>
    (\<forall>c\<in>set old. \<not> isLineTerminator c) \<and> (t2 = [] \<or> isLineTerminator (hd t2)) \<and>
    js_split (CHR 0x0A) content =
      pre @ [x @ STEP_NAME @ t1] @ blanks @ [indent2 @ RUN_KEY @ old @ t2] @ post \<and>
    (\<forall>c\<in>set t1. isWhiteSpace c) \<and> (\<forall>b\<in>set blanks. \<forall>c\<in>set b. isWhiteSpace c) \<and>
    js_join NL (pre @ [x]) \<noteq> [] \<and> isWhiteSpace (last (js_join NL (pre @ [x]))) \<and>
    (\<forall>q<length (js_join NL (pre @ [x])). \<not> patternAt content q)"
  then have doc: "js_split (CHR 0x0A) content =
      (pre @ [x @ STEP_NAME @ t1] @ blanks) @ [indent2 @ RUN_KEY @ old @ t2] @ post"
    by simp
  from h have w: "updateDeployYml pm content =
        js_join NL (pre @ [x @ STEP_NAME @ t1] @ blanks @
                    [indent2 @ RUN_KEY @ getGithubActionsInstallCommand pm @ t2] @ post)"
    by (intro updateDeployYml_pattern [where old = old]) blast+
  show "updateDeployYml pm content =
        js_join NL (pre @ [x @ STEP_NAME @ t1] @ blanks @
                    [indent2 @ RUN_KEY @ getGithubActionsInstallCommand pm @ t2] @ post)"
    by (rule w)
  show "js_split (CHR 0x0A) (updateDeployYml pm content) =
        pre @ [x @ STEP_NAME @ t1] @ blanks @
        [indent2 @ RUN_KEY @ getGithubActionsInstallCommand pm @ t2] @ post"
    unfolding w using replaced_run_line [OF doc, of pm] by simp
next
  assume h: "(\<forall>c\<in>set indent2. isWhiteSpace c) \<and> old \<noteq> [] \<and>
    (\<forall>c\<in>set old. \<not> isLineTerminator c) \<and> (t2 = [] \<or> isLineTerminator (hd t2)) \<and>
    js_split (CHR 0x0A) content = pre @ [l, indent2 @ RUN_KEY @ old @ t2] @ post \<and>
    js_includes l ''Install dependencies'' \<and>
    (\<forall>q. \<not> patternAt content q) \<and>
    (\<forall>i<length pre. \<not> linePairAt (js_split (CHR 0x0A) content) i)"
  then have doc: "js_split (CHR 0x0A) content =
      (pre @ [l]) @ [indent2 @ RUN_KEY @ old @ t2] @ post"
    by simp
  from h have w: "updateDeployYml pm content =
        js_join NL (pre @ [l, indent2 @ RUN_KEY @ getGithubActionsInstallCommand pm @ t2] @ post)"
    by (intro updateDeployYml_fallback [where old = old]) blast+
  show "updateDeployYml pm content =
        js_join NL (pre @ [l, indent2 @ RUN_KEY @ getGithubActionsInstallCommand pm @ t2] @ post)"
    by (rule w)
  show "js_split (CHR 0x0A) (updateDeployYml pm content) =
        pre @ [l, indent2 @ RUN_KEY @ getGithubActionsInstallCommand pm @ t2] @ post"
    unfolding w using replaced_run_line [OF doc, of pm] by simp
next
  assume "(\<forall>q. \<not> patternAt content q) \<and> (\<forall>i. \<not> linePairAt (js_split (CHR 0x0A) content) i)"
  then show "updateDeployYml pm content = content"
    using updateDeployYml_unchanged by blast
next
  show "getGithubActionsInstallCommand Yarn = ''yarn install --frozen-lockfile''"
    by (simp add: getGithubActionsInstallCommand_def)
qed


lemmas deploy_eval =
  updateDeployYml_def installPatternAt_def runPatternAt_def stripPrefix_def
  getGithubActionsInstallCommand_def STEP_NAME_def RUN_KEY_def startsWith_def
  isWhiteSpace_def isLineTerminator_def js_split_run Let_def

text \<open>
  Three documents. In the first the step name is mentioned in a comment before the step
  and a blank line stands between the name line and the run line: the pattern matches
  first at the step. The second starts with the step at column 0, so that no white space
  stands before the step name: the pattern matches nowhere and the fallback rewrites the
  run line. The third holds no install step and is written back as it was.
\<close>

theorem updateDeployYml_install_step_witness:
  "updateDeployYml Yarn
     ''# - name: Install dependencies\<newline>steps:\<newline>  - name: Install dependencies\<newline>\<newline>    run: npm ci\<newline>  - name: Build\<newline>    run: npm run build\<newline>''
    = ''# - name: Install dependencies\<newline>steps:\<newline>  - name: Install dependencies\<newline>\<newline>    run: yarn install --frozen-lockfile\<newline>  - name: Build\<newline>    run: npm run build\<newline>'' \<and>
   updateDeployYml Yarn ''- name: Install dependencies\<newline>  run: npm ci\<newline>''
    = ''- name: Install dependencies\<newline>  run: yarn install --frozen-lockfile\<newline>'' \<and>
   updateDeployYml Yarn ''steps:\<newline>  - name: Build\<newline>    run: npm run build\<newline>''
    = ''steps:\<newline>  - name: Build\<newline>    run: npm run build\<newline>''"
proof -
  let ?c1 = "''# - name: Install dependencies\<newline>steps:\<newline>  - name: Install dependencies\<newline>\<newline>    run: npm ci\<newline>  - name: Build\<newline>    run: npm run build\<newline>''"
  let ?pre = "[''# - name: Install dependencies'', ''steps:'']"
  let ?post = "[''  - name: Build'', ''    run: npm run build'', []]"
  have ws: "\<forall>c\<in>set ''    ''. isWhiteSpace c" "\<forall>c\<in>set ''  ''. isWhiteSpace c"
    "\<forall>c\<in>set []. isWhiteSpace c" "\<forall>b\<in>set [[]]. \<forall>c\<in>set b. isWhiteSpace c"
    by (simp_all add: isWhiteSpace_def)
  have old: "''npm ci'' \<noteq> []" "\<forall>c\<in>set ''npm ci''. \<not> isLineTerminator c"
    "([] :: string) = [] \<or> isLineTerminator (hd [])"
    by (simp_all add: isLineTerminator_def)
  have doc1: "js_split (CHR 0x0A) ?c1 =
      ?pre @ [''  '' @ STEP_NAME @ []] @ [[]] @ [''    '' @ RUN_KEY @ ''npm ci'' @ []] @ ?post"
    by (simp add: js_split_run STEP_NAME_def RUN_KEY_def del: js_split.simps)
  have A: "js_join NL (?pre @ [''  '']) = ''# - name: Install dependencies\<newline>steps:\<newline>  ''"
    by simp
  have A1: "js_join NL (?pre @ [''  '']) \<noteq> []"
    "isWhiteSpace (last (js_join NL (?pre @ [''  ''])))"
    unfolding A by (simp_all add: isWhiteSpace_def)
  have len: "length (js_join NL (?pre @ [''  ''])) = 40"
    unfolding A by simp
  have "list_all (\<lambda>q. \<not> patternAt ?c1 q) [0..<40]"
    by code_simp
  then have first1: "\<forall>q<length (js_join NL (?pre @ [''  ''])). \<not> patternAt ?c1 q"
    unfolding len all_below_list_all .
  note T1 = updateDeployYml_install_step [where ?indent2.0 = "''    ''" and old = "''npm ci''"
      and ?t2.0 = "[]" and content = ?c1 and pre = ?pre and x = "''  ''" and ?t1.0 = "[]"
      and blanks = "[[]]" and post = ?post and pm = Yarn, THEN conjunct2, THEN conjunct1,
      THEN mp, THEN conjunct1]
  have r1: "updateDeployYml Yarn ?c1 =
      js_join NL (?pre @ [''  '' @ STEP_NAME @ []] @ [[]] @
        [''    '' @ RUN_KEY @ getGithubActionsInstallCommand Yarn @ []] @ ?post)"
    by (rule T1) (intro conjI; fact)
  let ?c2 = "''- name: Install dependencies\<newline>  run: npm ci\<newline>''"
  have doc2: "js_split (CHR 0x0A) ?c2 =
      [] @ [''- name: Install dependencies'', ''  '' @ RUN_KEY @ ''npm ci'' @ []] @ [[]]"
    by (simp add: js_split_run RUN_KEY_def del: js_split.simps)
  have l2: "js_includes ''- name: Install dependencies'' ''Install dependencies''"
    by (simp add: startsWith_def)
  have "list_all (\<lambda>q. \<not> patternAt ?c2 q) [0..<length ?c2]"
    by code_simp
  then have nowhere2: "\<forall>q. \<not> patternAt ?c2 q"
    by (simp only: patternAt_nowhere)
  have first2: "\<forall>i<length ([] :: string list). \<not> linePairAt (js_split (CHR 0x0A) ?c2) i"
    by (simp del: js_split.simps)
  note T2 = updateDeployYml_install_step [where ?indent2.0 = "''  ''" and old = "''npm ci''"
      and ?t2.0 = "[]" and content = ?c2 and pre = "[]"
      and l = "''- name: Install dependencies''" and post = "[[]]" and pm = Yarn,
      THEN conjunct2, THEN conjunct2, THEN conjunct1, THEN mp, THEN conjunct1]
  have r2: "updateDeployYml Yarn ?c2 =
      js_join NL ([] @ [''- name: Install dependencies'',
        ''  '' @ RUN_KEY @ getGithubActionsInstallCommand Yarn @ []] @ [[]])"
    by (rule T2) (intro conjI; fact)
  let ?c3 = "''steps:\<newline>  - name: Build\<newline>    run: npm run build\<newline>''"
  have "list_all (\<lambda>q. \<not> patternAt ?c3 q) [0..<length ?c3]"
    by code_simp
  then have nowhere3: "\<forall>q. \<not> patternAt ?c3 q"
    by (simp only: patternAt_nowhere)
  have "list_all (\<lambda>i. \<not> linePairAt (js_split (CHR 0x0A) ?c3) i)
          [0..<length (js_split (CHR 0x0A) ?c3)]"
    by code_simp
  then have nopair3: "\<forall>i. \<not> linePairAt (js_split (CHR 0x0A) ?c3) i"
    by (simp only: linePairAt_nowhere)
  note T3 = updateDeployYml_install_step [where content = ?c3 and pm = Yarn,
      THEN conjunct2, THEN conjunct2, THEN conjunct2, THEN conjunct1, THEN mp]
  have r3: "updateDeployYml Yarn ?c3 = ?c3"
    by (rule T3) (intro conjI; fact)
  have j1: "js_join NL (?pre @ [''  '' @ STEP_NAME @ []] @ [[]] @
        [''    '' @ RUN_KEY @ getGithubActionsInstallCommand Yarn @ []] @ ?post)
      = ''# - name: Install dependencies\<newline>steps:\<newline>  - name: Install dependencies\<newline>\<newline>    run: yarn install --frozen-lockfile\<newline>  - name: Build\<newline>    run: npm run build\<newline>''"
    by (simp add: STEP_NAME_def RUN_KEY_def getGithubActionsInstallCommand_def)
  have j2: "js_join NL ([] @ [''- name: Install dependencies'',
        ''  '' @ RUN_KEY @ getGithubActionsInstallCommand Yarn @ []] @ [[]])
      = ''- name: Install dependencies\<newline>  run: yarn install --frozen-lockfile\<newline>''"
    by (simp add: RUN_KEY_def getGithubActionsInstallCommand_def)
  from r1 [unfolded j1] r2 [unfolded j2] r3 show ?thesis
    by (intro conjI)
qed

text \<open>
  C6 as stated fails for a step that holds another key between its name and its run
  line: the pattern does not match, the fallback finds no "run:" in the line after the
  name, and the document is written back as it was, with "npm ci".
\<close>

theorem updateDeployYml_key_between:
  "updateDeployYml Yarn
     ''steps:\<newline>  - name: Install dependencies\<newline>    shell: bash\<newline>    run: npm ci\<newline>''
    = ''steps:\<newline>  - name: Install dependencies\<newline>    shell: bash\<newline>    run: npm ci\<newline>''"
  by (simp add: deploy_eval del: js_split.simps)

end
